theory Spec2Isabelle
  imports Complex_Main "HOL-Library.Sublist" "HOL-Library.AList"
begin

text \<open>
  A shallow embedding of the two pieces of logic of the OData batch proxy: the batch
  translation (\<open>batch.middleware.ts\<close>, \<open>datasphere.service.ts\<close>, with the error classes and
  the error handler) and the cleaning of metadata XML (\<open>xml-parser.ts\<close>). Functions of the
  source keep their names. What the source takes from outside is a parameter of the
  model: the clock, the outbound call, \<open>JSON.stringify\<close>, and the parser and serializer
  of \<open>xml2js\<close>. An exception is a value of a sum type.
\<close>

section \<open>JavaScript strings\<close>

text \<open>
  A JavaScript string is modelled as a \<^typ>\<open>string\<close>: one \<^typ>\<open>char\<close> per UTF-16 code unit,
  for the code units below 256 (ASCII and Latin-1). Text with code units from 256 on is
  outside the model; this only matters for the Unicode white space and line terminators
  (U+FEFF, U+2028, ...) which \<open>trim\<close> and the regular expression \<open>.\<close> treat specially.
\<close>

abbreviation CR :: char where "CR \<equiv> CHR 0x0D"
abbreviation LF :: char where "LF \<equiv> CHR 0x0A"
abbreviation DQ :: char where "DQ \<equiv> CHR 0x22"
abbreviation CRLF :: string where "CRLF \<equiv> [CR, LF]"

text \<open>White space in the sense of \<open>String.prototype.trim\<close>: TAB, LF, VT, FF, CR, SP, NBSP.\<close>

definition is_ws :: "char \<Rightarrow> bool" where
  "is_ws c = (c \<in> set [CHR 0x09, CHR 0x0A, CHR 0x0B, CHR 0x0C, CHR 0x0D, CHR 0x20, CHR 0xA0])"

definition trim :: "string \<Rightarrow> string" where
  "trim s = rev (dropWhile is_ws (rev (dropWhile is_ws s)))"

text \<open>Line terminators in the sense of the regular expression atom \<open>.\<close>.\<close>

definition is_line_terminator :: "char \<Rightarrow> bool" where
  "is_line_terminator c = (c = LF \<or> c = CR)"

text \<open>Decimal digits and their values.\<close>

definition is_digit :: "char \<Rightarrow> bool" where
  "is_digit c = (c \<in> set ''0123456789'')"

definition digit_value :: "char \<Rightarrow> nat" where
  "digit_value c = of_char c - 48"

text \<open>\<open>s.includes(pat)\<close> and \<open>s.startsWith(pat)\<close> (the latter is \<^const>\<open>prefix\<close>).\<close>

fun includes_str :: "string \<Rightarrow> string \<Rightarrow> bool" where
  "includes_str [] pat = (pat = [])"
| "includes_str (c # cs) pat = (prefix pat (c # cs) \<or> includes_str cs pat)"

text \<open>
  \<open>s.split(sep)\<close> for a non-empty string separator: the occurrences of \<open>sep\<close> are found
  from left to right, without overlap. (Every separator in the program is a non-empty
  literal or \<open>"--" + boundary\<close>; for the empty separator the model does not split.)
\<close>

fun split_str :: "string \<Rightarrow> string \<Rightarrow> string list" where
  "split_str sep [] = [[]]"
| "split_str sep (c # cs) =
     (if sep \<noteq> [] \<and> prefix sep (c # cs) then [] # split_str sep (drop (length sep - 1) cs)
      else (case split_str sep cs of [] \<Rightarrow> [[c]] | x # xs \<Rightarrow> (c # x) # xs))"

text \<open>\<open>xs.join(sep)\<close>.\<close>

fun join :: "string \<Rightarrow> string list \<Rightarrow> string" where
  "join sep [] = []"
| "join sep [x] = x"
| "join sep (x # y # ys) = x @ sep @ join sep (y # ys)"

text \<open>
  \<open>s.split(/\r?\n/)\<close>: every LF is a separator, and a CR right before it belongs to the
  separator. So the text is split at the LFs and one trailing CR is taken off every
  piece but the last.
\<close>

definition strip_cr :: "string \<Rightarrow> string" where
  "strip_cr s = (if s \<noteq> [] \<and> last s = CR then butlast s else s)"

definition split_lines :: "string \<Rightarrow> string list" where
  "split_lines s = (let segs = split_str [LF] s in map strip_cr (butlast segs) @ [last segs])"

text \<open>
  \<open>line.split(/:(.+)/)\<close>, of which the caller reads the first two elements. The
  expression matches at the first colon that is followed by a character other than a
  line terminator; the first element is the text before that colon, the second the
  capture group, which runs to the next line terminator or the end. Without a match the
  result is the one-element array holding the line, and the second element is undefined.
\<close>

fun split_colon :: "string \<Rightarrow> string \<times> string option" where
  "split_colon [] = ([], None)"
| "split_colon (c # cs) =
     (if c = CHR '':'' \<and> cs \<noteq> [] \<and> \<not> is_line_terminator (hd cs)
      then ([], Some (takeWhile (\<lambda>x. \<not> is_line_terminator x) cs))
      else (case split_colon cs of (k, v) \<Rightarrow> (c # k, v)))"

subsection \<open>Facts about searching and splitting\<close>

lemma split_str_not_Nil: "split_str sep s \<noteq> []"
  by (induction s rule: split_str.induct) (auto split: list.splits)

lemma hd_split_str_prefix: "prefix (hd (split_str sep s)) s"
  by (induction sep s rule: split_str.induct) (auto split: list.splits)

text \<open>No segment of a split contains the separator.\<close>

lemma split_str_segment_free:
  assumes "sep \<noteq> []" "seg \<in> set (split_str sep s)"
  shows "\<not> includes_str seg sep"
  using assms
proof (induction sep s arbitrary: seg rule: split_str.induct)
  case (1 sep)
  then show ?case by simp
next
  case (2 sep c cs)
  show ?case
  proof (cases "prefix sep (c # cs)")
    case True
    with 2 show ?thesis by auto
  next
    case False
    obtain x xs where sp: "split_str sep cs = x # xs"
      using split_str_not_Nil [of sep cs] by (cases "split_str sep cs") auto
    have px: "prefix x cs" using hd_split_str_prefix [of sep cs] sp by simp
    have np: "\<not> prefix sep (c # x)"
      using False px by (meson Cons_prefix_Cons prefix_order.trans)
    from 2 False sp have "seg = c # x \<or> seg \<in> set xs" by auto
    then show ?thesis
    proof
      assume "seg = c # x"
      moreover have "\<not> includes_str x sep" using 2(2)[of x] 2(3) False sp by auto
      ultimately show ?thesis using np by simp
    next
      assume "seg \<in> set xs"
      then show ?thesis using 2(2)[of seg] 2(3) False sp by auto
    qed
  qed
qed

lemma includes_str_Nil [simp]: "includes_str s []"
  by (cases s) auto

lemma includes_str_self_append: "includes_str (s @ t) s"
  by (induction s) auto

lemma includes_str_length: "includes_str s pat \<Longrightarrow> length pat \<le> length s"
  by (induction s) (auto dest: prefix_length_le)

lemma includes_str_Cons: "includes_str s pat \<Longrightarrow> includes_str (c # s) pat"
  by simp

lemma includes_str_appendI: "includes_str s pat \<Longrightarrow> includes_str (s @ t) pat"
proof (induction s)
  case Nil
  then show ?case by simp
next
  case (Cons c s)
  from Cons.prems consider "prefix pat (c # s)" | "includes_str s pat" by auto
  then show ?case
  proof cases
    case 1
    then have "prefix pat ((c # s) @ t)" by (rule prefix_prefix)
    then show ?thesis by simp
  next
    case 2
    then show ?thesis using Cons.IH by simp
  qed
qed

lemma includes_str_prependI: "includes_str s pat \<Longrightarrow> includes_str (p @ s) pat"
  by (induction p) auto

lemma includes_str_iff: "includes_str s pat \<longleftrightarrow> (\<exists>p q. s = p @ pat @ q)"
proof (induction s)
  case Nil
  then show ?case by auto
next
  case (Cons c s)
  show ?case
  proof
    assume "includes_str (c # s) pat"
    then consider "prefix pat (c # s)" | "includes_str s pat" by auto
    then show "\<exists>p q. c # s = p @ pat @ q"
    proof cases
      case 1
      then obtain q where "c # s = pat @ q" by (auto simp: prefix_def)
      then have "c # s = [] @ pat @ q" by simp
      then show ?thesis by blast
    next
      case 2
      then obtain p q where "s = p @ pat @ q" using Cons by auto
      then have "c # s = (c # p) @ pat @ q" by simp
      then show ?thesis by blast
    qed
  next
    assume "\<exists>p q. c # s = p @ pat @ q"
    then obtain p q where pq: "c # s = p @ pat @ q" by auto
    show "includes_str (c # s) pat"
    proof (cases p)
      case Nil
      then have "prefix pat (c # s)" using pq by (simp add: prefix_def)
      then show ?thesis by simp
    next
      case (Cons a p')
      then have "s = p' @ pat @ q" using pq by simp
      then show ?thesis using Cons.IH by auto
    qed
  qed
qed

text \<open>Splitting a text whose head part has no occurrence of the separator starting in it.\<close>

lemma split_str_append_free:
  assumes "sep \<noteq> []" "\<not> includes_str (a @ take (length sep - 1) s) sep"
  shows "split_str sep (a @ s) = (a @ hd (split_str sep s)) # tl (split_str sep s)"
  using assms(2)
proof (induction a)
  case Nil
  then show ?case using split_str_not_Nil [of sep s] by simp
next
  case (Cons c a)
  have np: "\<not> prefix sep (c # a @ s)"
  proof
    assume "prefix sep (c # a @ s)"
    then obtain q where q: "c # a @ s = sep @ q" by (auto simp: prefix_def)
    have "length sep \<le> length (c # a @ take (length sep - 1) s) \<or> length s < length sep - 1"
      by auto
    then have "prefix sep (c # a @ take (length sep - 1) s)"
    proof
      assume l: "length sep \<le> length (c # a @ take (length sep - 1) s)"
      have "take (length sep) (c # a @ s) = sep" using q by simp
      moreover have "take (length sep) (c # a @ s) = take (length sep) (c # a @ take (length sep - 1) s)"
        using assms(1) by (cases sep) (auto simp: take_Cons')
      ultimately show ?thesis by (metis take_is_prefix)
    next
      assume "length s < length sep - 1"
      then have "take (length sep - 1) s = s" by simp
      then show ?thesis using q by (simp add: prefix_def)
    qed
    then show False using Cons.prems by simp
  qed
  have "\<not> includes_str (a @ take (length sep - 1) s) sep" using Cons.prems by simp
  from Cons.IH [OF this] np show ?case by simp
qed

lemma split_str_sep_first:
  assumes "sep \<noteq> []"
  shows "split_str sep (sep @ s) = [] # split_str sep s"
proof -
  obtain c cs where sep: "sep = c # cs" using assms by (cases sep) auto
  show ?thesis unfolding sep by simp
qed

lemma split_str_first_occurrence:
  assumes "sep \<noteq> []" "\<not> includes_str (a @ butlast sep) sep"
  shows "split_str sep (a @ sep @ s) = a # split_str sep s"
proof -
  have "take (length sep - 1) (sep @ s) = butlast sep"
    by (simp add: butlast_conv_take)
  then have "\<not> includes_str (a @ take (length sep - 1) (sep @ s)) sep" using assms(2) by simp
  from split_str_append_free [OF assms(1) this] show ?thesis
    by (simp add: split_str_sep_first [OF assms(1)])
qed

lemma split_str_no_occurrence:
  assumes "\<not> includes_str s sep"
  shows "split_str sep s = [s]"
  using assms by (induction s) (auto split: list.splits)

text \<open>No occurrence can straddle the seam when the last character before it is not one of the separator.\<close>

lemma includes_str_seam:
  assumes "a \<noteq> []" "last a \<notin> set sep" "\<not> includes_str a sep" "\<not> includes_str t sep"
  shows "\<not> includes_str (a @ t) sep"
proof
  assume "includes_str (a @ t) sep"
  then obtain p q where pq: "a @ t = p @ sep @ q" by (auto simp: includes_str_iff)
  consider "length (p @ sep) \<le> length a" | "length a \<le> length p"
    | "length p < length a" "length a < length (p @ sep)"
    by linarith
  then show False
  proof cases
    case 1
    have "a = take (length a) (a @ t)" by simp
    also have "\<dots> = take (length a) ((p @ sep) @ q)" using pq by simp
    also have "\<dots> = (p @ sep) @ take (length a - length (p @ sep)) q" using 1 by simp
    finally have "a = p @ sep @ take (length a - length (p @ sep)) q" by simp
    then have "includes_str a sep" unfolding includes_str_iff by blast
    then show ?thesis using assms(3) by simp
  next
    case 2
    have "t = drop (length a) (a @ t)" by simp
    also have "\<dots> = drop (length a) (p @ sep @ q)" using pq by simp
    also have "\<dots> = drop (length a) p @ sep @ q" using 2 by simp
    finally have "includes_str t sep" unfolding includes_str_iff by blast
    then show ?thesis using assms(4) by simp
  next
    case 3
    have n1: "\<not> length a - 1 < length p" using 3 by linarith
    have n2: "length a - 1 - length p < length sep" using 3 by auto
    have "last a = (a @ t) ! (length a - 1)" using assms(1) by (simp add: nth_append last_conv_nth)
    also have "\<dots> = (p @ sep @ q) ! (length a - 1)" using pq by simp
    also have "\<dots> = (sep @ q) ! (length a - 1 - length p)"
      using n1 by (simp only: nth_append if_False)
    also have "\<dots> = sep ! (length a - 1 - length p)"
      using n2 by (simp only: nth_append if_True)
    finally have "last a = sep ! (length a - 1 - length p)" .
    with n2 have "last a \<in> set sep" by simp
    then show ?thesis using assms(2) by simp
  qed
qed

section \<open>Batch envelope parser (batch.middleware.ts)\<close>

record BatchPart =
  headers :: "(string \<times> string) list"
  body :: string

text \<open>
  \<open>Record<string, string>\<close> is the list of the entries of the object in the order in which
  JavaScript enumerates them: the keys that are array indices (canonical numerals up to
  \<open>2^32 - 2\<close>) in ascending order, then the other keys in the order of their creation.
  Assigning to a key that is present overwrites its value in place. Assigning a string to
  the key \<open>__proto__\<close> of a plain object runs the inherited setter, which ignores values
  that are not objects, so no property is created.
\<close>

definition index_value :: "string \<Rightarrow> int" where
  "index_value k = foldl (\<lambda>a c. 10 * a + int (digit_value c)) 0 k"

definition is_array_index :: "string \<Rightarrow> bool" where
  "is_array_index k \<longleftrightarrow>
     k \<noteq> [] \<and> list_all is_digit k \<and> (k = ''0'' \<or> hd k \<noteq> CHR ''0'') \<and> index_value k \<le> 4294967294"

fun insert_index :: "string \<times> string \<Rightarrow> (string \<times> string) list \<Rightarrow> (string \<times> string) list" where
  "insert_index kv [] = [kv]"
| "insert_index kv (e # es) =
     (if is_array_index (fst e) \<and> index_value (fst e) < index_value (fst kv)
      then e # insert_index kv es
      else kv # e # es)"

definition set_header :: "string \<Rightarrow> string \<Rightarrow> (string \<times> string) list \<Rightarrow> (string \<times> string) list" where
  "set_header k v headerObject =
     (if k = ''__proto__'' then headerObject
      else if map_of headerObject k \<noteq> None then AList.update k v headerObject
      else if is_array_index k then insert_index (k, v) headerObject
      else headerObject @ [(k, v)])"

definition boundaryDelimiter :: "string \<Rightarrow> string" where
  "boundaryDelimiter boundary = ''--'' @ boundary"

definition boundaryEnd :: "string \<Rightarrow> string" where
  "boundaryEnd boundary = ''--'' @ boundary @ ''--''"

text \<open>The segments that survive the filter, \<open>parts\<close> in the source.\<close>

definition batch_parts :: "string \<Rightarrow> string \<Rightarrow> string list" where
  "batch_parts body' boundary =
     filter (\<lambda>part. trim part \<noteq> [] \<and> part \<noteq> boundaryEnd boundary)
       (split_str (boundaryDelimiter boundary) body')"

text \<open>
  The \<open>forEach\<close> over \<open>bodyLines\<close>, with the index \<open>i\<close> of the line and the state
  \<open>(headerObject, bodyIndex)\<close>. A blank line moves \<open>bodyIndex\<close> behind itself and the scan
  goes on: later lines are still read as headers, and a later blank line moves
  \<open>bodyIndex\<close> again.
\<close>

fun scan_lines :: "nat \<Rightarrow> string list \<Rightarrow> (string \<times> string) list \<times> nat \<Rightarrow> (string \<times> string) list \<times> nat" where
  "scan_lines i [] st = st"
| "scan_lines i (line # ls) (headerObject, bodyIndex) =
     (if trim line = [] then scan_lines (i + 1) ls (headerObject, i + 1)
      else (case split_colon line of
              (key, Some val) \<Rightarrow>
                 if key \<noteq> [] \<and> val \<noteq> []
                 then scan_lines (i + 1) ls (set_header (trim key) (trim val) headerObject, bodyIndex)
                 else scan_lines (i + 1) ls (headerObject, bodyIndex)
            | (key, None) \<Rightarrow> scan_lines (i + 1) ls (headerObject, bodyIndex)))"

text \<open>What is built from \<open>bodyLines\<close>, the lines after the first.\<close>

definition part_of_lines :: "string list \<Rightarrow> BatchPart" where
  "part_of_lines bodyLines =
     (case scan_lines 0 bodyLines ([], 0) of
        (headerObject, bodyIndex) \<Rightarrow>
          \<lparr>headers = headerObject, body = trim (join [LF] (drop bodyIndex bodyLines))\<rparr>)"

text \<open>
  The callback of \<open>parts.map\<close>: \<open>const [headers, ...bodyLines] = part.trim().split(/\r?\n/)\<close>
  binds the first line to a variable that is never read.
\<close>

definition parse_part :: "string \<Rightarrow> BatchPart" where
  "parse_part part =
     (case split_lines (trim part) of
        [] \<Rightarrow> part_of_lines []
      | headers' # bodyLines \<Rightarrow> part_of_lines bodyLines)"

definition parseBatchBody :: "string \<Rightarrow> string \<Rightarrow> BatchPart list" where
  "parseBatchBody body' boundary = map parse_part (batch_parts body' boundary)"

section \<open>Properties of the envelope parser\<close>

lemma split_lines_not_Nil: "split_lines s \<noteq> []"
  by (simp add: split_lines_def Let_def)

lemma parse_part_tl: "parse_part part = part_of_lines (tl (split_lines (trim part)))"
  using split_lines_not_Nil [of "trim part"]
  by (cases "split_lines (trim part)") (simp_all add: parse_part_def)

text \<open>
  Claim C10. Each part returned by \<open>parseBatchBody\<close> is built from the lines after the
  first line of its trimmed segment only (\<open>tl\<close> of the lines; headers are read from the
  second line on): two bodies whose surviving segments agree line by line from the
  second line on give the same parts, whatever their first lines are. The first line
  reaches neither the header mapping nor the body text.
\<close>

theorem parseBatchBody_ignores_first_line:
  assumes "list_all2 (\<lambda>s t. tl (split_lines (trim s)) = tl (split_lines (trim t)))
             (batch_parts b1 boundary1) (batch_parts b2 boundary2)"
  shows "parseBatchBody b1 boundary1
           = map (\<lambda>s. part_of_lines (tl (split_lines (trim s)))) (batch_parts b1 boundary1)
         \<and> parseBatchBody b1 boundary1 = parseBatchBody b2 boundary2"
proof
  show "parseBatchBody b1 boundary1
          = map (\<lambda>s. part_of_lines (tl (split_lines (trim s)))) (batch_parts b1 boundary1)"
    by (simp add: parseBatchBody_def parse_part_tl)
  show "parseBatchBody b1 boundary1 = parseBatchBody b2 boundary2"
    using assms unfolding parseBatchBody_def
    by (induction rule: list_all2_induct) (simp_all add: parse_part_tl)
qed

theorem parseBatchBody_ignores_first_line_witness:
  "list_all2 (\<lambda>s t. tl (split_lines (trim s)) = tl (split_lines (trim t)))
     (batch_parts (''--b'' @ CRLF @ ''Content-Type: application/http'' @ CRLF @ ''A: 1'' @ CRLF @ CRLF
                     @ ''GET Items HTTP/1.1'' @ CRLF @ ''--b--'') ''b'')
     (batch_parts (''--c'' @ CRLF @ ''X-Other: y'' @ CRLF @ ''A: 1'' @ CRLF @ CRLF
                     @ ''GET Items HTTP/1.1'' @ CRLF @ ''--c--'') ''c'')
   \<and> parseBatchBody (''--b'' @ CRLF @ ''Content-Type: application/http'' @ CRLF @ ''A: 1'' @ CRLF @ CRLF
                     @ ''GET Items HTTP/1.1'' @ CRLF @ ''--b--'') ''b''
     = parseBatchBody (''--c'' @ CRLF @ ''X-Other: y'' @ CRLF @ ''A: 1'' @ CRLF @ CRLF
                     @ ''GET Items HTTP/1.1'' @ CRLF @ ''--c--'') ''c''"
proof -
  have h: "list_all2 (\<lambda>s t. tl (split_lines (trim s)) = tl (split_lines (trim t)))
     (batch_parts (''--b'' @ CRLF @ ''Content-Type: application/http'' @ CRLF @ ''A: 1'' @ CRLF @ CRLF
                     @ ''GET Items HTTP/1.1'' @ CRLF @ ''--b--'') ''b'')
     (batch_parts (''--c'' @ CRLF @ ''X-Other: y'' @ CRLF @ ''A: 1'' @ CRLF @ CRLF
                     @ ''GET Items HTTP/1.1'' @ CRLF @ ''--c--'') ''c'')"
    by (simp add: batch_parts_def boundaryDelimiter_def boundaryEnd_def split_lines_def
          strip_cr_def trim_def is_ws_def)
  from h parseBatchBody_ignores_first_line [OF h, THEN conjunct2] show ?thesis by (rule conjI)
qed

subsection \<open>The terminal marker\<close>

text \<open>
  The second test of the filter, \<open>part !== boundaryEnd\<close>, never rejects anything: the
  terminal marker starts with the delimiter the body was split on, so it is never one
  of the segments. What the split leaves of a terminal marker is the text \<open>--\<close>.
\<close>

lemma boundaryEnd_never_a_segment:
  "boundaryEnd boundary \<notin> set (split_str (boundaryDelimiter boundary) s)"
proof
  assume a: "boundaryEnd boundary \<in> set (split_str (boundaryDelimiter boundary) s)"
  have "boundaryDelimiter boundary \<noteq> []" by (simp add: boundaryDelimiter_def)
  from split_str_segment_free [OF this a]
  show False using includes_str_self_append [of "boundaryDelimiter boundary" "''--''"]
    by (simp add: boundaryEnd_def boundaryDelimiter_def)
qed

lemma batch_parts_filter:
  "batch_parts s boundary = filter (\<lambda>part. trim part \<noteq> []) (split_str (boundaryDelimiter boundary) s)"
  unfolding batch_parts_def using boundaryEnd_never_a_segment [of boundary s]
  by (intro filter_cong) auto

text \<open>
  Claim C4 (the code departs from it). On a one-part envelope closed by its terminal
  marker, \<open>parseBatchBody\<close> returns two parts: the part of the request, and a second part
  with no headers and an empty body that comes from the terminal marker \<open>--b--\<close>, of
  which the split on \<open>--b\<close> leaves \<open>--\<close>.
\<close>

theorem parseBatchBody_terminal_marker_part:
  "parseBatchBody (''--b'' @ CRLF @ ''Content-Type: application/http'' @ CRLF @ CRLF
                     @ ''GET Items HTTP/1.1'' @ CRLF @ ''--b--'') ''b''
   = [\<lparr>headers = [], body = ''GET Items HTTP/1.1''\<rparr>, \<lparr>headers = [], body = []\<rparr>]
   \<and> batch_parts (''--b'' @ CRLF @ ''Content-Type: application/http'' @ CRLF @ CRLF
                     @ ''GET Items HTTP/1.1'' @ CRLF @ ''--b--'') ''b''
   = [CRLF @ ''Content-Type: application/http'' @ CRLF @ CRLF @ ''GET Items HTTP/1.1'' @ CRLF, ''--'']"
  by (simp add: parseBatchBody_def batch_parts_def boundaryDelimiter_def boundaryEnd_def
        parse_part_def part_of_lines_def split_lines_def strip_cr_def trim_def is_ws_def
        is_line_terminator_def set_header_def)

section \<open>Round trip of the envelope\<close>

subsection \<open>Trimming\<close>

text \<open>The two halves of \<open>trim\<close>.\<close>

definition ltrim :: "string \<Rightarrow> string" where "ltrim s = dropWhile is_ws s"
definition rtrim :: "string \<Rightarrow> string" where "rtrim s = rev (dropWhile is_ws (rev s))"

lemma trim_rtrim_ltrim: "trim s = rtrim (ltrim s)"
  by (simp add: trim_def ltrim_def rtrim_def)

lemma ltrim_ws_append: "list_all is_ws w \<Longrightarrow> ltrim (w @ s) = ltrim s"
  by (induction w) (auto simp: ltrim_def)

lemma ltrim_append: "ltrim a \<noteq> [] \<Longrightarrow> ltrim (a @ s) = ltrim a @ s"
  unfolding ltrim_def by (induction a) auto

lemma rtrim_append_ws: "list_all is_ws w \<Longrightarrow> rtrim (s @ w) = rtrim s"
proof -
  assume "list_all is_ws w"
  then have "list_all is_ws (rev w)" by (simp add: list_all_iff)
  then have "dropWhile is_ws (rev w @ rev s) = dropWhile is_ws (rev s)"
    using ltrim_ws_append [of "rev w" "rev s"] by (simp add: ltrim_def)
  then show ?thesis by (simp add: rtrim_def)
qed

lemma rtrim_append: "rtrim a \<noteq> [] \<Longrightarrow> rtrim (s @ a) = s @ rtrim a"
proof -
  assume "rtrim a \<noteq> []"
  then have "dropWhile is_ws (rev a) \<noteq> []" by (simp add: rtrim_def)
  then have "dropWhile is_ws (rev a @ rev s) = dropWhile is_ws (rev a) @ rev s"
    using ltrim_append [of "rev a" "rev s"] by (simp add: ltrim_def)
  then show ?thesis by (simp add: rtrim_def)
qed

lemma ltrim_eq_Nil: "ltrim s = [] \<longleftrightarrow> list_all is_ws s"
  by (auto simp: ltrim_def list_all_iff)

lemma rtrim_eq_Nil: "rtrim s = [] \<longleftrightarrow> list_all is_ws s"
  by (auto simp: rtrim_def list_all_iff)

lemma ltrim_hd: "ltrim s \<noteq> [] \<Longrightarrow> \<not> is_ws (hd (ltrim s))"
  unfolding ltrim_def by (rule hd_dropWhile)

lemma rtrim_decomp: "rtrim s @ rev (takeWhile is_ws (rev s)) = s"
proof -
  have "rev (takeWhile is_ws (rev s) @ dropWhile is_ws (rev s))
          = rev (dropWhile is_ws (rev s)) @ rev (takeWhile is_ws (rev s))"
    by (rule rev_append)
  then show ?thesis unfolding rtrim_def by (simp only: takeWhile_dropWhile_id rev_rev_ident)
qed

lemma rtrim_hd: "rtrim s \<noteq> [] \<Longrightarrow> hd (rtrim s) = hd s"
proof -
  assume "rtrim s \<noteq> []"
  then have "hd (rtrim s @ rev (takeWhile is_ws (rev s))) = hd (rtrim s)" by (rule hd_append2)
  then show ?thesis by (simp only: rtrim_decomp)
qed

lemma ltrim_all_ws: "list_all is_ws (ltrim s) \<Longrightarrow> ltrim s = []"
proof (rule ccontr)
  assume a: "list_all is_ws (ltrim s)" and ne: "ltrim s \<noteq> []"
  from ltrim_hd [OF ne] have "\<not> is_ws (hd (ltrim s))" .
  moreover have "hd (ltrim s) \<in> set (ltrim s)" using ne by simp
  ultimately show False using a by (simp add: list_all_iff)
qed

lemma trim_eq_Nil: "trim s = [] \<longleftrightarrow> list_all is_ws s"
proof
  assume "trim s = []"
  then have "list_all is_ws (ltrim s)" by (simp add: trim_rtrim_ltrim rtrim_eq_Nil)
  then have "ltrim s = []" by (rule ltrim_all_ws)
  then show "list_all is_ws s" by (simp add: ltrim_eq_Nil)
next
  assume "list_all is_ws s"
  then have "ltrim s = []" by (simp add: ltrim_eq_Nil)
  then show "trim s = []" by (simp add: trim_rtrim_ltrim rtrim_def)
qed

lemma ltrim_no_ws_hd: "s \<noteq> [] \<Longrightarrow> \<not> is_ws (hd s) \<Longrightarrow> ltrim s = s"
  by (cases s) (auto simp: ltrim_def)

lemma ltrim_rtrim_commute: "ltrim (rtrim s) = rtrim (ltrim s)"
proof (cases "list_all is_ws s")
  case True
  then have a: "rtrim s = []" and b: "ltrim s = []" by (simp_all add: rtrim_eq_Nil ltrim_eq_Nil)
  have "ltrim [] = []" "rtrim [] = []" by (simp_all add: ltrim_def rtrim_def)
  then show ?thesis by (simp only: a b)
next
  case False
  have s: "takeWhile is_ws s @ ltrim s = s" by (simp add: ltrim_def)
  have ne: "ltrim s \<noteq> []" using False by (simp add: ltrim_eq_Nil)
  have r: "rtrim (ltrim s) \<noteq> []"
    using False trim_eq_Nil [of s] by (simp add: trim_rtrim_ltrim)
  have "rtrim s = rtrim (takeWhile is_ws s @ ltrim s)" by (simp only: s)
  also have "\<dots> = takeWhile is_ws s @ rtrim (ltrim s)" using r by (rule rtrim_append)
  finally have "ltrim (rtrim s) = ltrim (takeWhile is_ws s @ rtrim (ltrim s))" by simp
  also have "\<dots> = ltrim (rtrim (ltrim s))"
    by (rule ltrim_ws_append) (auto simp: list_all_iff dest: set_takeWhileD)
  also have "\<dots> = rtrim (ltrim s)"
  proof (rule ltrim_no_ws_hd [OF r])
    show "\<not> is_ws (hd (rtrim (ltrim s)))"
      using rtrim_hd [OF r] ltrim_hd [OF ne] by simp
  qed
  finally show ?thesis .
qed

lemma rtrim_idem: "rtrim (rtrim s) = rtrim s"
  by (simp add: rtrim_def)

lemma trim_rtrim: "trim (rtrim s) = trim s"
  by (simp add: trim_rtrim_ltrim ltrim_rtrim_commute rtrim_idem)

lemma rtrim_no_ws_last: "s \<noteq> [] \<Longrightarrow> \<not> is_ws (last s) \<Longrightarrow> rtrim s = s"
proof -
  assume a: "s \<noteq> []" "\<not> is_ws (last s)"
  then have "rev s \<noteq> []" "\<not> is_ws (hd (rev s))" by (simp_all add: hd_rev)
  then have "ltrim (rev s) = rev s" by (rule ltrim_no_ws_hd)
  then show ?thesis by (simp add: rtrim_def ltrim_def)
qed

lemma trim_id: "s \<noteq> [] \<Longrightarrow> \<not> is_ws (hd s) \<Longrightarrow> \<not> is_ws (last s) \<Longrightarrow> trim s = s"
  by (simp add: trim_rtrim_ltrim ltrim_no_ws_hd rtrim_no_ws_last)

lemma trim_ws_prefix: "list_all is_ws w \<Longrightarrow> trim (w @ s) = trim s"
  by (simp add: trim_rtrim_ltrim ltrim_ws_append)

lemma rtrim_last: "rtrim s \<noteq> [] \<Longrightarrow> \<not> is_ws (last (rtrim s))"
proof -
  assume "rtrim s \<noteq> []"
  then have ne: "dropWhile is_ws (rev s) \<noteq> []" by (simp add: rtrim_def)
  then have "\<not> is_ws (hd (dropWhile is_ws (rev s)))" by (rule hd_dropWhile)
  then show ?thesis using ne by (simp add: rtrim_def last_rev)
qed

lemma trim_hd: "trim s \<noteq> [] \<Longrightarrow> \<not> is_ws (hd (trim s))"
proof -
  assume ne: "trim s \<noteq> []"
  then have l: "ltrim s \<noteq> []" by (auto simp: trim_rtrim_ltrim rtrim_def)
  have "hd (trim s) = hd (ltrim s)" using ne unfolding trim_rtrim_ltrim by (rule rtrim_hd)
  then show ?thesis using ltrim_hd [OF l] by simp
qed

lemma trim_last: "trim s \<noteq> [] \<Longrightarrow> \<not> is_ws (last (trim s))"
  unfolding trim_rtrim_ltrim by (rule rtrim_last)

lemma ltrim_decomp: "takeWhile is_ws s @ ltrim s = s"
  by (simp add: ltrim_def)

lemma trim_ltrim_rtrim: "trim s = ltrim (rtrim s)"
  by (simp add: trim_rtrim_ltrim ltrim_rtrim_commute)


subsection \<open>Lines\<close>

lemma includes_str_single: "includes_str s [c] \<longleftrightarrow> c \<in> set s"
  by (induction s) auto

lemma split_str_LF_Cons:
  assumes "LF \<notin> set l"
  shows "split_str [LF] (l @ LF # rest) = l # split_str [LF] rest"
proof -
  have "\<not> includes_str (l @ butlast [LF]) [LF]" using assms by (simp add: includes_str_single)
  from split_str_first_occurrence [OF _ this, of rest] show ?thesis by simp
qed

lemma split_str_LF_none:
  assumes "LF \<notin> set l"
  shows "split_str [LF] l = [l]"
  by (rule split_str_no_occurrence) (simp add: includes_str_single assms)

lemma strip_cr_snoc: "strip_cr (l @ [CR]) = l"
  by (simp add: strip_cr_def)

lemma split_lines_CRLF:
  assumes "LF \<notin> set l"
  shows "split_lines (l @ CRLF @ rest) = l # split_lines rest"
proof -
  have "LF \<notin> set (l @ [CR])" using assms by simp
  from split_str_LF_Cons [OF this, of rest]
  have s: "split_str [LF] (l @ CRLF @ rest) = (l @ [CR]) # split_str [LF] rest" by simp
  obtain x xs where r: "split_str [LF] rest = x # xs"
    using split_str_not_Nil [of "[LF]" rest] by (cases "split_str [LF] rest") auto
  show ?thesis unfolding split_lines_def s r Let_def
    by (simp add: strip_cr_snoc del: split_str.simps)
qed

lemma split_lines_single:
  assumes "LF \<notin> set l"
  shows "split_lines l = [l]"
  by (simp add: split_lines_def split_str_LF_none [OF assms] del: split_str.simps)

lemma split_lines_LF: "split_lines (LF # s) = [] # split_lines s"
  using split_str_not_Nil [of "[LF]" s]
  by (cases "split_str [LF] s") (simp_all add: split_lines_def Let_def strip_cr_def)

lemma split_lines_CR_LF: "split_lines (CR # LF # s) = [] # split_lines s"
  using split_lines_CRLF [of "[]" s] by simp

lemma split_lines_Cons:
  assumes "c \<noteq> LF" "c \<noteq> CR \<or> \<not> prefix [LF] s"
  shows "split_lines (c # s) = (c # hd (split_lines s)) # tl (split_lines s)"
proof -
  obtain x xs where sp: "split_str [LF] s = x # xs"
    using split_str_not_Nil [of "[LF]" s] by (cases "split_str [LF] s") auto
  have c: "split_str [LF] (c # s) = (c # x) # xs" using assms(1) sp by simp
  show ?thesis
  proof (cases xs)
    case Nil
    then show ?thesis unfolding split_lines_def c sp Let_def by simp
  next
    case (Cons y ys)
    have "x = [] \<Longrightarrow> prefix [LF] s"
    proof -
      assume x: "x = []"
      show ?thesis
      proof (cases s)
        case Nil
        then show ?thesis using sp Cons by simp
      next
        case (Cons d ds)
        then show ?thesis using sp x by (auto split: if_splits list.splits)
      qed
    qed
    then have "strip_cr (c # x) = c # strip_cr x"
      using assms(2) by (cases "x = []") (auto simp: strip_cr_def)
    then show ?thesis unfolding split_lines_def c sp Let_def using Cons by simp
  qed
qed

text \<open>Lines of a text that starts with white space.\<close>

lemma split_lines_ws_prefix:
  assumes "list_all is_ws W" "T \<noteq> []" "\<not> is_ws (hd T)"
  shows "\<exists>Ws w. split_lines (W @ T) = Ws @ (w @ hd (split_lines T)) # tl (split_lines T)
               \<and> (\<forall>l \<in> set Ws. list_all is_ws l) \<and> list_all is_ws w"
  using assms(1)
proof (induction W)
  case Nil
  have "split_lines T = [] @ ([] @ hd (split_lines T)) # tl (split_lines T)"
    using split_lines_not_Nil [of T] by simp
  then show ?case by (intro exI [of _ "[]"]) simp
next
  case (Cons c W)
  then obtain Ws w where ih: "split_lines (W @ T) = Ws @ (w @ hd (split_lines T)) # tl (split_lines T)"
      "\<forall>l \<in> set Ws. list_all is_ws l" "list_all is_ws w" by auto
  have cw: "is_ws c" using Cons.prems by simp
  consider "c = LF" | "c = CR" "prefix [LF] (W @ T)" | "c \<noteq> LF" "c \<noteq> CR \<or> \<not> prefix [LF] (W @ T)"
    by blast
  then show ?case
  proof cases
    case 1
    have "split_lines ((c # W) @ T) = ([] # Ws) @ (w @ hd (split_lines T)) # tl (split_lines T)"
      using 1 ih(1) by (simp add: split_lines_LF)
    moreover have "\<forall>l \<in> set ([] # Ws). list_all is_ws l" using ih(2) by simp
    ultimately show ?thesis using ih(3) by blast
  next
    case 2
    then obtain r where r: "W @ T = LF # r" by (auto simp: prefix_def)
    have "split_lines ((c # W) @ T) = [] # split_lines r"
      using 2(1) r by (simp add: split_lines_CR_LF)
    also have "\<dots> = split_lines (W @ T)" unfolding r by (simp add: split_lines_LF)
    finally show ?thesis using ih by metis
  next
    case 3
    have s: "split_lines ((c # W) @ T) = (c # hd (split_lines (W @ T))) # tl (split_lines (W @ T))"
      using split_lines_Cons [OF 3] by simp
    show ?thesis
    proof (cases Ws)
      case Nil
      then have "split_lines ((c # W) @ T) = [] @ ((c # w) @ hd (split_lines T)) # tl (split_lines T)"
        using s ih(1) by simp
      moreover have "list_all is_ws (c # w)" using cw ih(3) by simp
      ultimately show ?thesis by (intro exI [of _ "[]"] exI [of _ "c # w"]) simp
    next
      case (Cons u us)
      then have "split_lines ((c # W) @ T) = ((c # u) # us) @ (w @ hd (split_lines T)) # tl (split_lines T)"
        using s ih(1) by simp
      moreover have "\<forall>l \<in> set ((c # u) # us). list_all is_ws l" using cw ih(2) Cons by simp
      ultimately show ?thesis using ih(3) by blast
    qed
  qed
qed

lemma split_lines_hd:
  assumes "T \<noteq> []" "\<not> is_ws (hd T)"
  shows "hd (split_lines T) \<noteq> [] \<and> hd (hd (split_lines T)) = hd T"
proof -
  obtain c r where T: "T = c # r" using assms(1) by (cases T) auto
  have "c \<noteq> LF" "c \<noteq> CR" using assms(2) T by (auto simp: is_ws_def)
  then have "split_lines (c # r) = (c # hd (split_lines r)) # tl (split_lines r)"
    by (intro split_lines_Cons) auto
  then show ?thesis using T by simp
qed

lemma split_str_LF_last:
  assumes "s \<noteq> []" "last s \<noteq> LF"
  shows "last (split_str [LF] s) \<noteq> [] \<and> last (last (split_str [LF] s)) = last s"
  using assms
proof (induction s)
  case Nil
  then show ?case by simp
next
  case (Cons c s)
  obtain x xs where sp: "split_str [LF] s = x # xs"
    using split_str_not_Nil [of "[LF]" s] by (cases "split_str [LF] s") auto
  show ?case
  proof (cases "s = []")
    case True
    then show ?thesis using Cons.prems by simp
  next
    case False
    then have ih: "last (split_str [LF] s) \<noteq> [] \<and> last (last (split_str [LF] s)) = last s"
      using Cons by simp
    show ?thesis
    proof (cases "c = LF")
      case True
      then show ?thesis using ih False sp by simp
    next
      case c: False
      show ?thesis
      proof (cases xs)
        case Nil
        then show ?thesis using ih False sp c by simp
      next
        case (Cons y ys)
        then show ?thesis using ih False sp c by simp
      qed
    qed
  qed
qed

lemma split_lines_last:
  assumes "T \<noteq> []" "\<not> is_ws (last T)"
  shows "last (split_lines T) \<noteq> [] \<and> last (last (split_lines T)) = last T"
proof -
  have "last T \<noteq> LF" using assms(2) by (auto simp: is_ws_def)
  from split_str_LF_last [OF assms(1) this] show ?thesis
    by (simp add: split_lines_def Let_def del: split_str.simps)
qed

lemma join_Cons_append: "join sep ((w @ x) # xs) = w @ join sep (x # xs)"
  by (cases xs) simp_all

lemma join_hd: "x \<noteq> [] \<Longrightarrow> join sep (x # xs) \<noteq> [] \<and> hd (join sep (x # xs)) = hd x"
  by (cases xs) simp_all

lemma join_not_Nil: "xs \<noteq> [] \<Longrightarrow> last xs \<noteq> [] \<Longrightarrow> join sep xs \<noteq> []"
  by (induction sep xs rule: join.induct) auto

lemma join_last: "xs \<noteq> [] \<Longrightarrow> last xs \<noteq> [] \<Longrightarrow> last (join sep xs) = last (last xs)"
proof (induction sep xs rule: join.induct)
  case (3 sep x y ys)
  have "join sep (y # ys) \<noteq> []" using 3(3) by (intro join_not_Nil) simp_all
  then have "last (x @ sep @ join sep (y # ys)) = last (join sep (y # ys))" by simp
  then show ?case using 3 by simp
qed simp_all

text \<open>The lines of a trimmed text, joined again, are trimmed.\<close>

lemma trim_join_lines:
  assumes "trim s \<noteq> []"
  shows "trim (join [LF] (split_lines (trim s))) = join [LF] (split_lines (trim s))"
proof -
  let ?T = "trim s"
  obtain l ls where sp: "split_lines ?T = l # ls"
    using split_lines_not_Nil [of ?T] by (cases "split_lines ?T") auto
  have h: "l \<noteq> []" "hd l = hd ?T"
    using split_lines_hd [OF assms trim_hd [OF assms]] sp by simp_all
  have la: "last (l # ls) \<noteq> []" "last (last (l # ls)) = last ?T"
    using split_lines_last [OF assms trim_last [OF assms]] sp by simp_all
  have "join [LF] (l # ls) \<noteq> []" "hd (join [LF] (l # ls)) = hd ?T"
    using join_hd [OF h(1), of "[LF]" ls] h(2) by simp_all
  moreover have "last (join [LF] (l # ls)) = last ?T"
    using join_last [of "l # ls" "[LF]"] la by simp
  ultimately show ?thesis unfolding sp
    using trim_hd [OF assms] trim_last [OF assms] by (intro trim_id) simp_all
qed

text \<open>A header line as the specification writes it: \<open>key: value\<close>.\<close>

definition header_line :: "string \<times> string \<Rightarrow> string" where
  "header_line kv = fst kv @ '': '' @ snd kv"

lemma split_lines_header_block:
  assumes "\<forall>kv \<in> set hs. LF \<notin> set (header_line kv)"
  shows "split_lines (concat (map (\<lambda>kv. header_line kv @ CRLF) hs) @ rest)
           = map header_line hs @ split_lines rest"
  using assms
proof (induction hs)
  case Nil
  then show ?case by simp
next
  case (Cons kv hs)
  have "LF \<notin> set (header_line kv)" using Cons.prems by simp
  from split_lines_CRLF [OF this, of "concat (map (\<lambda>kv. header_line kv @ CRLF) hs) @ rest"]
  show ?case using Cons by simp
qed

lemma split_colon_prefix:
  assumes "CHR '':'' \<notin> set k" "r \<noteq> []" "\<not> is_line_terminator (hd r)"
  shows "split_colon (k @ CHR '':'' # r) = (k, Some (takeWhile (\<lambda>x. \<not> is_line_terminator x) r))"
  using assms by (induction k) auto

lemma split_colon_header_line:
  assumes "CHR '':'' \<notin> set k" "\<forall>c \<in> set v. \<not> is_line_terminator c"
  shows "split_colon (header_line (k, v)) = (k, Some (CHR '' '' # v))"
proof -
  have "takeWhile (\<lambda>x. \<not> is_line_terminator x) (CHR '' '' # v) = CHR '' '' # v"
    using assms(2) by (simp add: is_line_terminator_def)
  moreover have "\<not> is_line_terminator (hd (CHR '' '' # v))" by (simp add: is_line_terminator_def)
  ultimately show ?thesis
    using split_colon_prefix [OF assms(1), of "CHR '' '' # v"] by (simp add: header_line_def)
qed

subsection \<open>The rendering of the specification\<close>

text \<open>
  The rendering follows the words of the specification, not the source (which has no
  renderer for requests): every part is the separator \<open>--b\<close>, CR LF, the header lines,
  each closed by CR LF, a blank line, the body and CR LF; the terminal marker \<open>--b--\<close>
  closes the envelope.
\<close>

definition render_part :: "BatchPart \<Rightarrow> string" where
  "render_part p = concat (map (\<lambda>kv. header_line kv @ CRLF) (headers p)) @ CRLF @ body p @ CRLF"

definition render :: "BatchPart list \<Rightarrow> string \<Rightarrow> string" where
  "render P b = concat (map (\<lambda>p. ''--'' @ b @ CRLF @ render_part p) P) @ ''--'' @ b @ ''--''"

text \<open>
  A line has a colon with text when one of its colons is followed by a character other
  than a line terminator. This is what the expression of the parser matches: it reads
  such a line as a header, wherever the line stands, unless nothing precedes the colon.
\<close>

fun colon_with_text :: "string \<Rightarrow> bool" where
  "colon_with_text [] = False"
| "colon_with_text (c # cs) =
     ((c = CHR '':'' \<and> cs \<noteq> [] \<and> \<not> is_line_terminator (hd cs)) \<or> colon_with_text cs)"

text \<open>
  The parts on which the parser gives back what was rendered. There is a first header
  line (the parser drops the first line of a part); keys and values are free of line
  terminators (a header line is one line); after the first line the keys are not empty,
  have no colon and are not \<open>__proto__\<close>; and of the lines of the trimmed body none is blank
  and none has a colon with text. The body may have any number of lines, and white space
  and blank lines around them.
\<close>

definition part_ok :: "BatchPart \<Rightarrow> bool" where
  "part_ok p \<longleftrightarrow>
     headers p \<noteq> []
     \<and> (\<forall>kv \<in> set (headers p). \<forall>c \<in> set (fst kv @ snd kv). \<not> is_line_terminator c)
     \<and> (\<forall>kv \<in> set (tl (headers p)).
           fst kv \<noteq> [] \<and> CHR '':'' \<notin> set (fst kv) \<and> trim (fst kv) \<noteq> ''__proto__'')
     \<and> (\<forall>l \<in> set (split_lines (trim (body p))). trim l \<noteq> [] \<and> \<not> colon_with_text l)"

text \<open>
  What is expected back. The header mapping of header lines: the trimmed key of every
  line is mapped to its trimmed value, a later line with the same key overriding an
  earlier one. The body with the white space normalized as the parser does it: trimmed,
  with LF between its lines in place of CR LF.
\<close>

definition header_mapping :: "(string \<times> string) list \<Rightarrow> string \<rightharpoonup> string" where
  "header_mapping hs = map_of (rev (map (\<lambda>kv. (trim (fst kv), trim (snd kv))) hs))"

definition normal_body :: "string \<Rightarrow> string" where
  "normal_body s = join [LF] (split_lines (trim s))"

subsection \<open>The header object as a mapping\<close>

lemma map_of_insert_index:
  "map_of h k = None \<Longrightarrow> map_of (insert_index (k, v) h) = (map_of h)(k \<mapsto> v)"
  by (induction h) (auto simp: fun_eq_iff)

lemma map_of_set_header:
  assumes "k \<noteq> ''__proto__''"
  shows "map_of (set_header k v h) = (map_of h)(k \<mapsto> v)"
proof (cases "map_of h k")
  case None
  have "map_of (h @ [(k, v)]) = (map_of h)(k \<mapsto> v)"
    using None by (auto simp: map_add_def fun_eq_iff split: option.splits)
  then show ?thesis using assms None map_of_insert_index [of h k v]
    by (simp add: set_header_def)
next
  case (Some a)
  then show ?thesis using assms by (simp add: set_header_def update_conv')
qed

lemma map_of_fold_set_header:
  assumes "\<forall>kv \<in> set hs. trim (fst kv) \<noteq> ''__proto__''"
  shows "map_of (foldl (\<lambda>h kv. set_header (trim (fst kv)) (trim (snd kv)) h) h hs)
           = map_of (rev (map (\<lambda>kv. (trim (fst kv), trim (snd kv))) hs) @ h)"
  using assms
proof (induction hs arbitrary: h)
  case Nil
  then show ?case by simp
next
  case (Cons kv hs)
  have "map_of (set_header (trim (fst kv)) (trim (snd kv)) h) = (map_of h)(trim (fst kv) \<mapsto> trim (snd kv))"
    using Cons.prems by (intro map_of_set_header) simp
  then show ?case using Cons by (simp add: map_add_def fun_eq_iff split: option.splits)
qed

subsection \<open>The scan\<close>

lemma not_ws_colon: "\<not> is_ws (CHR '':'')"
  by (simp add: is_ws_def)

lemma trim_header_line_not_Nil: "trim (header_line kv) \<noteq> []"
proof -
  have "CHR '':'' \<in> set (header_line kv)" by (simp add: header_line_def)
  then have "\<not> list_all is_ws (header_line kv)" using not_ws_colon by (auto simp: list_all_iff)
  then show ?thesis by (simp add: trim_eq_Nil)
qed

lemma trim_space_Cons: "trim (CHR '' '' # v) = trim v"
  using trim_ws_prefix [of "[CHR '' '']" v] by (simp add: is_ws_def)

lemma scan_lines_header:
  assumes "fst kv \<noteq> []" "CHR '':'' \<notin> set (fst kv)"
    "\<forall>c \<in> set (snd kv). \<not> is_line_terminator c"
  shows "scan_lines i (header_line kv # ls) (h, bi)
           = scan_lines (i + 1) ls (set_header (trim (fst kv)) (trim (snd kv)) h, bi)"
proof -
  obtain k v where kv: "kv = (k, v)" by (cases kv)
  have sc: "split_colon (header_line (k, v)) = (k, Some (CHR '' '' # v))"
    using split_colon_header_line [of k v] assms kv by simp
  show ?thesis
    using assms trim_header_line_not_Nil [of kv]
    by (simp add: sc kv trim_space_Cons)
qed

lemma scan_lines_headers:
  assumes "\<forall>kv \<in> set hs. fst kv \<noteq> [] \<and> CHR '':'' \<notin> set (fst kv)
             \<and> (\<forall>c \<in> set (snd kv). \<not> is_line_terminator c)"
  shows "scan_lines i (map header_line hs @ rest) (h, bi)
           = scan_lines (i + length hs) rest
               (foldl (\<lambda>h kv. set_header (trim (fst kv)) (trim (snd kv)) h) h hs, bi)"
  using assms
proof (induction hs arbitrary: i h)
  case Nil
  then show ?case by simp
next
  case (Cons kv hs)
  have "scan_lines i (header_line kv # (map header_line hs @ rest)) (h, bi)
          = scan_lines (i + 1) (map header_line hs @ rest)
              (set_header (trim (fst kv)) (trim (snd kv)) h, bi)"
    using Cons.prems by (intro scan_lines_header) auto
  then show ?case using Cons.IH [of "i + 1"] Cons.prems by simp
qed

lemma scan_lines_blank:
  assumes "\<forall>l \<in> set Ws. trim l = []"
  shows "scan_lines i (Ws @ rest) (h, bi)
           = scan_lines (i + length Ws) rest (h, if Ws = [] then bi else i + length Ws)"
  using assms
proof (induction Ws arbitrary: i bi)
  case Nil
  then show ?case by simp
next
  case (Cons l Ws)
  have "scan_lines i ((l # Ws) @ rest) (h, bi) = scan_lines (i + 1) (Ws @ rest) (h, i + 1)"
    using Cons.prems by simp
  also have "\<dots> = scan_lines (i + 1 + length Ws) rest (h, if Ws = [] then i + 1 else i + 1 + length Ws)"
    using Cons.IH [of "i + 1" "i + 1"] Cons.prems by simp
  finally show ?case by simp
qed

lemma split_colon_no_text: "\<not> colon_with_text l \<Longrightarrow> split_colon l = (l, None)"
  by (induction l) auto

lemma colon_with_text_append:
  "CHR '':'' \<notin> set w \<Longrightarrow> colon_with_text (w @ l) = colon_with_text l"
  by (induction w) auto

lemma scan_lines_plain:
  assumes "\<forall>l \<in> set ls. trim l \<noteq> [] \<and> \<not> colon_with_text l"
  shows "scan_lines i ls (h, bi) = (h, bi)"
  using assms by (induction ls arbitrary: i) (simp_all add: split_colon_no_text)

lemma part_of_lines_headers_body:
  assumes hs: "\<forall>kv \<in> set hs. fst kv \<noteq> [] \<and> CHR '':'' \<notin> set (fst kv)
             \<and> (\<forall>c \<in> set (snd kv). \<not> is_line_terminator c)"
    and Ws: "\<forall>l \<in> set Ws. trim l = []"
    and ls: "\<forall>l \<in> set ls. trim l \<noteq> [] \<and> \<not> colon_with_text l"
  shows "part_of_lines (map header_line hs @ [] # Ws @ ls)
           = \<lparr>headers = foldl (\<lambda>h kv. set_header (trim (fst kv)) (trim (snd kv)) h) [] hs,
              body = trim (join [LF] ls)\<rparr>"
proof -
  let ?H = "foldl (\<lambda>h kv. set_header (trim (fst kv)) (trim (snd kv)) h) [] hs"
  have b: "\<forall>l \<in> set ([] # Ws). trim l = []" using Ws by (simp add: trim_def)
  have "scan_lines 0 (map header_line hs @ [] # Ws @ ls) ([], 0)
          = scan_lines (length hs) (([] # Ws) @ ls) (?H, 0)"
    using scan_lines_headers [OF hs, of 0 "[] # Ws @ ls" "[]" 0] by simp
  also have "\<dots> = scan_lines (length hs + length ([] # Ws)) ls (?H, length hs + length ([] # Ws))"
    using scan_lines_blank [OF b, of "length hs" ls ?H 0] by simp
  also have "\<dots> = (?H, length hs + length ([] # Ws))"
    using ls by (rule scan_lines_plain)
  finally have s: "scan_lines 0 (map header_line hs @ [] # Ws @ ls) ([], 0)
                     = (?H, length hs + length ([] # Ws))" .
  have "drop (length hs + length ([] # Ws)) (map header_line hs @ [] # Ws @ ls) = ls"
    by simp
  then show ?thesis unfolding part_of_lines_def s by simp
qed

subsection \<open>One part\<close>

lemma set_ltrim: "set (ltrim s) \<subseteq> set s"
  unfolding ltrim_def by (auto dest: set_dropWhileD)

lemma ws_CRLF: "list_all is_ws CRLF"
  by (simp add: is_ws_def)

text \<open>The lines of the body as they stand in the trimmed segment.\<close>

lemma body_lines:
  assumes ne: "trim s \<noteq> []"
  shows "\<exists>Ws w. split_lines (rtrim s) = Ws @ (w @ hd (split_lines (trim s))) # tl (split_lines (trim s))
               \<and> (\<forall>l \<in> set Ws. trim l = []) \<and> list_all is_ws w"
proof -
  let ?B = "rtrim s"
  have T: "ltrim ?B = trim s" by (simp add: trim_ltrim_rtrim)
  have B: "takeWhile is_ws ?B @ trim s = ?B" using ltrim_decomp [of ?B] by (simp only: T)
  have w: "list_all is_ws (takeWhile is_ws ?B)" by (auto simp: list_all_iff dest: set_takeWhileD)
  from split_lines_ws_prefix [OF w ne trim_hd [OF ne]]
  obtain Ws v where d: "split_lines (takeWhile is_ws ?B @ trim s)
                          = Ws @ (v @ hd (split_lines (trim s))) # tl (split_lines (trim s))"
      "\<forall>l \<in> set Ws. list_all is_ws l" "list_all is_ws v" by blast
  have "\<forall>l \<in> set Ws. trim l = []" using d(2) by (simp add: trim_eq_Nil)
  then show ?thesis using d(1,3) unfolding B by blast
qed

lemma parse_part_rendered:
  assumes ok: "part_ok p"
  shows "map_of (headers (parse_part (CRLF @ render_part p))) = header_mapping (tl (headers p))
         \<and> body (parse_part (CRLF @ render_part p)) = normal_body (body p)"
proof -
  from ok obtain kv hs where hp: "headers p = kv # hs"
    by (cases "headers p") (auto simp: part_ok_def)
  define H where "H = concat (map (\<lambda>kv. header_line kv @ CRLF) hs)"
  define F where "F = ltrim (header_line kv)"
  define B where "B = rtrim (body p)"
  obtain l1 rest where T: "split_lines (trim (body p)) = l1 # rest"
    using split_lines_not_Nil [of "trim (body p)"] by (cases "split_lines (trim (body p))") auto
  have noLT: "\<forall>kv \<in> set (kv # hs). \<forall>c \<in> set (fst kv @ snd kv). \<not> is_line_terminator c"
    using ok hp by (simp add: part_ok_def)
  have lf_line: "LF \<notin> set (header_line x)" if "x \<in> set (kv # hs)" for x
    using noLT that by (auto simp: header_line_def is_line_terminator_def)
  have hs_ok: "\<forall>x \<in> set hs. fst x \<noteq> [] \<and> CHR '':'' \<notin> set (fst x)
                 \<and> (\<forall>c \<in> set (snd x). \<not> is_line_terminator c)"
    using ok hp noLT by (auto simp: part_ok_def)
  have proto: "\<forall>x \<in> set hs. trim (fst x) \<noteq> ''__proto__''"
    using ok hp by (auto simp: part_ok_def)
  have lines_ok: "\<forall>l \<in> set (l1 # rest). trim l \<noteq> [] \<and> \<not> colon_with_text l"
    using ok T by (simp add: part_ok_def)
  have tne: "trim (body p) \<noteq> []"
  proof
    assume "trim (body p) = []"
    then have "split_lines (trim (body p)) = [[]]" by (simp add: split_lines_def)
    then show False using lines_ok T by (simp add: trim_def)
  qed
  have Fne: "F \<noteq> []"
    using trim_header_line_not_Nil [of kv] unfolding F_def trim_rtrim_ltrim
    by (auto simp: rtrim_def)
  have Bne: "B \<noteq> []"
    using tne unfolding B_def by (simp add: trim_eq_Nil rtrim_eq_Nil)
  have seg: "CRLF @ render_part p = CRLF @ header_line kv @ CRLF @ H @ CRLF @ body p @ CRLF"
    by (simp add: render_part_def hp H_def)
  have "ltrim (CRLF @ render_part p) = ltrim (header_line kv @ CRLF @ H @ CRLF @ body p @ CRLF)"
    unfolding seg by (rule ltrim_ws_append) (rule ws_CRLF)
  also have "\<dots> = F @ CRLF @ H @ CRLF @ body p @ CRLF"
    unfolding F_def using Fne [unfolded F_def] by (rule ltrim_append)
  finally have l: "ltrim (CRLF @ render_part p) = (F @ CRLF @ H @ CRLF @ body p) @ CRLF" by simp
  have "trim (CRLF @ render_part p) = rtrim (ltrim (CRLF @ render_part p))"
    by (rule trim_rtrim_ltrim)
  also have "\<dots> = rtrim ((F @ CRLF @ H @ CRLF @ body p) @ CRLF)" by (simp only: l)
  also have "\<dots> = rtrim (F @ CRLF @ H @ CRLF @ body p)"
    using ws_CRLF by (rule rtrim_append_ws)
  also have "\<dots> = rtrim ((F @ CRLF @ H @ CRLF) @ body p)" by simp
  also have "\<dots> = (F @ CRLF @ H @ CRLF) @ B"
    unfolding B_def using Bne [unfolded B_def] by (rule rtrim_append)
  finally have t: "trim (CRLF @ render_part p) = F @ CRLF @ H @ CRLF @ B" by simp
  have lfF: "LF \<notin> set F" using lf_line [of kv] set_ltrim [of "header_line kv"] by (auto simp: F_def)
  from body_lines [OF tne] obtain Ws w where
      bl: "split_lines B = Ws @ (w @ l1) # rest" and Ws: "\<forall>l \<in> set Ws. trim l = []"
      and w: "list_all is_ws w"
    unfolding B_def T by auto
  have "split_lines (trim (CRLF @ render_part p)) = split_lines (F @ CRLF @ H @ CRLF @ B)"
    by (simp only: t)
  also have "\<dots> = F # split_lines (H @ CRLF @ B)"
    using lfF by (rule split_lines_CRLF)
  also have "split_lines (H @ CRLF @ B) = map header_line hs @ split_lines (CRLF @ B)"
    unfolding H_def using lf_line by (intro split_lines_header_block) auto
  also have "split_lines (CRLF @ B) = [] # split_lines B"
    using split_lines_CRLF [of "[]" B] by simp
  finally have lines: "split_lines (trim (CRLF @ render_part p))
                         = F # map header_line hs @ [] # Ws @ (w @ l1) # rest"
    by (simp add: bl)
  have wc: "CHR '':'' \<notin> set w" using w not_ws_colon by (auto simp: list_all_iff)
  have first_ok: "trim (w @ l1) \<noteq> [] \<and> \<not> colon_with_text (w @ l1)"
    using lines_ok w by (simp add: trim_ws_prefix colon_with_text_append [OF wc])
  have content: "\<forall>l \<in> set ((w @ l1) # rest). trim l \<noteq> [] \<and> \<not> colon_with_text l"
    using first_ok lines_ok by simp
  have pp: "parse_part (CRLF @ render_part p)
              = \<lparr>headers = foldl (\<lambda>h kv. set_header (trim (fst kv)) (trim (snd kv)) h) [] hs,
                 body = trim (join [LF] ((w @ l1) # rest))\<rparr>"
    unfolding parse_part_def lines list.case
    using hs_ok Ws content by (rule part_of_lines_headers_body)
  have "trim (join [LF] ((w @ l1) # rest)) = trim (w @ join [LF] (l1 # rest))"
    by (simp only: join_Cons_append)
  also have "\<dots> = trim (join [LF] (l1 # rest))" using w by (rule trim_ws_prefix)
  also have "\<dots> = join [LF] (l1 # rest)"
    using trim_join_lines [OF tne] by (simp only: T)
  finally have b: "trim (join [LF] ((w @ l1) # rest)) = normal_body (body p)"
    by (simp add: normal_body_def T)
  have h: "map_of (foldl (\<lambda>h kv. set_header (trim (fst kv)) (trim (snd kv)) h) [] hs)
             = header_mapping hs"
    using map_of_fold_set_header [OF proto, of "[]"] by (simp add: header_mapping_def)
  show ?thesis unfolding pp using h b by (simp add: hp)
qed

subsection \<open>All parts\<close>

lemma concat_shift:
  "concat (map (\<lambda>p. d @ X p) P) @ d = d @ concat (map (\<lambda>p. X p @ d) P)"
  by (induction P) auto

lemma split_str_segments:
  assumes "d \<noteq> []" "\<forall>p \<in> set P. \<not> includes_str (X p @ butlast d) d"
  shows "split_str d (concat (map (\<lambda>p. X p @ d) P) @ rest) = map X P @ split_str d rest"
  using assms(2)
proof (induction P)
  case Nil
  then show ?case by simp
next
  case (Cons p P)
  have "\<not> includes_str (X p @ butlast d) d" using Cons.prems by simp
  from split_str_first_occurrence [OF assms(1) this, of "concat (map (\<lambda>p. X p @ d) P) @ rest"]
  show ?case using Cons by simp
qed

lemma render_part_last: "render_part p \<noteq> [] \<and> last (render_part p) = LF"
  by (simp add: render_part_def)

lemma segment_free:
  assumes lf: "LF \<notin> set b" and free: "\<not> includes_str (render_part p) (boundaryDelimiter b)"
  shows "\<not> includes_str ((CRLF @ render_part p) @ butlast (boundaryDelimiter b)) (boundaryDelimiter b)"
proof (rule includes_str_seam)
  show "CRLF @ render_part p \<noteq> []" by simp
  show "last (CRLF @ render_part p) \<notin> set (boundaryDelimiter b)"
    using render_part_last [of p] lf by (simp add: boundaryDelimiter_def)
  show "\<not> includes_str (CRLF @ render_part p) (boundaryDelimiter b)"
    using free by (simp add: boundaryDelimiter_def)
  show "\<not> includes_str (butlast (boundaryDelimiter b)) (boundaryDelimiter b)"
    using includes_str_length [of "butlast (boundaryDelimiter b)" "boundaryDelimiter b"]
    by (auto simp: boundaryDelimiter_def)
qed

lemma split_str_render:
  assumes lf: "LF \<notin> set b"
    and free: "\<forall>p \<in> set P. \<not> includes_str (render_part p) (boundaryDelimiter b)"
  shows "split_str (boundaryDelimiter b) (render P b)
           = [] # map (\<lambda>p. CRLF @ render_part p) P @ split_str (boundaryDelimiter b) ''--''"
proof -
  let ?d = "boundaryDelimiter b"
  have d: "?d \<noteq> []" by (simp add: boundaryDelimiter_def)
  have "render P b = (concat (map (\<lambda>p. ?d @ (CRLF @ render_part p)) P) @ ?d) @ ''--''"
    by (simp add: render_def boundaryDelimiter_def)
  also have "\<dots> = ?d @ concat (map (\<lambda>p. (CRLF @ render_part p) @ ?d) P) @ ''--''"
    by (simp only: concat_shift append_assoc)
  finally have r: "render P b = ?d @ concat (map (\<lambda>p. (CRLF @ render_part p) @ ?d) P) @ ''--''" .
  have "\<forall>p \<in> set P. \<not> includes_str ((CRLF @ render_part p) @ butlast ?d) ?d"
    using segment_free [OF lf] free by blast
  from split_str_segments [OF d this, of "''--''"]
  show ?thesis unfolding r split_str_sep_first [OF d] by simp
qed

lemma trim_segment_not_Nil:
  assumes "headers p \<noteq> []"
  shows "trim (CRLF @ render_part p) \<noteq> []"
proof -
  obtain kv hs where "headers p = kv # hs" using assms by (cases "headers p") auto
  then have "CHR '':'' \<in> set (CRLF @ render_part p)"
    by (simp add: render_part_def header_line_def)
  then have "\<not> list_all is_ws (CRLF @ render_part p)" using not_ws_colon by (auto simp: list_all_iff)
  then show ?thesis by (simp only: trim_eq_Nil not_False_eq_True)
qed

lemma batch_parts_render:
  assumes lf: "LF \<notin> set b"
    and ok: "\<forall>p \<in> set P. part_ok p \<and> \<not> includes_str (render_part p) (boundaryDelimiter b)"
  shows "take (length P) (batch_parts (render P b) b) = map (\<lambda>p. CRLF @ render_part p) P"
proof -
  have free: "\<forall>p \<in> set P. \<not> includes_str (render_part p) (boundaryDelimiter b)" using ok by blast
  have keep: "filter (\<lambda>part. trim part \<noteq> []) (map (\<lambda>p. CRLF @ render_part p) P)
                = map (\<lambda>p. CRLF @ render_part p) P"
    using ok trim_segment_not_Nil by (auto simp: filter_id_conv part_ok_def)
  have "batch_parts (render P b) b
          = map (\<lambda>p. CRLF @ render_part p) P
              @ filter (\<lambda>part. trim part \<noteq> []) (split_str (boundaryDelimiter b) ''--'')"
    unfolding batch_parts_filter split_str_render [OF lf free]
    using keep by (simp add: trim_def del: split_str.simps)
  then show ?thesis by simp
qed

text \<open>
  Claim C3 (as amended). For every boundary token \<open>b\<close> without a line feed and every
  sequence \<open>P\<close> of parts as described by \<open>part_ok\<close> whose rendering does not contain the
  separator \<open>--b\<close>, the first \<open>length P\<close> parts that \<open>parseBatchBody\<close> returns for the rendering
  have, part by part, the header mapping of the header lines after the first and the
  normalized body. Values may contain colons: a line is split at its first colon. The
  first header line of each part is not returned, and nothing is said about what
  follows these parts in the result.
\<close>

theorem parseBatchBody_render:
  assumes "LF \<notin> set b"
    and "\<forall>p \<in> set P. part_ok p \<and> \<not> includes_str (render_part p) (boundaryDelimiter b)"
  shows "map (\<lambda>r. (map_of (headers r), body r)) (take (length P) (parseBatchBody (render P b) b))
           = map (\<lambda>p. (header_mapping (tl (headers p)), normal_body (body p))) P"
proof -
  have "take (length P) (parseBatchBody (render P b) b)
          = map parse_part (take (length P) (batch_parts (render P b) b))"
    by (simp add: parseBatchBody_def take_map)
  also have "\<dots> = map parse_part (map (\<lambda>p. CRLF @ render_part p) P)"
    by (simp only: batch_parts_render [OF assms])
  finally have "map (\<lambda>r. (map_of (headers r), body r)) (take (length P) (parseBatchBody (render P b) b))
                  = map (\<lambda>p. (map_of (headers (parse_part (CRLF @ render_part p))),
                               body (parse_part (CRLF @ render_part p)))) P"
    by (simp add: comp_def)
  also have "\<dots> = map (\<lambda>p. (header_mapping (tl (headers p)), normal_body (body p))) P"
    using assms(2) parse_part_rendered by (intro map_cong refl) simp
  finally show ?thesis .
qed

definition example_parts :: "BatchPart list" where
  "example_parts =
     [\<lparr>headers = [(''Content-Type'', ''application/http''), (''Host'', '' example.com:8080 ''),
                  (''Content-ID '', ''1'')],
       body = CRLF @ '' GET Sales_Demo/Items HTTP/1.1'' @ CRLF @ ''  second line '' @ [LF] @ ''third'' @ CRLF\<rparr>,
      \<lparr>headers = [(''Content-Type'', ''application/http''), (''Accept'', ''a''), (''7'', ''x''), (''Accept'', ''b'')],
       body = ''GET Other HTTP/1.1''\<rparr>]"

theorem parseBatchBody_render_witness:
  "map (\<lambda>r. (map_of (headers r), body r))
     (take (length example_parts) (parseBatchBody (render example_parts ''batch_id-123-456'') ''batch_id-123-456''))
     = [(header_mapping [(''Host'', '' example.com:8080 ''), (''Content-ID '', ''1'')],
         ''GET Sales_Demo/Items HTTP/1.1'' @ [LF] @ ''  second line '' @ [LF] @ ''third''),
        (header_mapping [(''Accept'', ''a''), (''7'', ''x''), (''Accept'', ''b'')], ''GET Other HTTP/1.1'')]
   \<and> take (length example_parts) (parseBatchBody (render example_parts ''batch_id-123-456'') ''batch_id-123-456'')
     = [\<lparr>headers = [(''Host'', ''example.com:8080''), (''Content-ID'', ''1'')],
         body = ''GET Sales_Demo/Items HTTP/1.1'' @ [LF] @ ''  second line '' @ [LF] @ ''third''\<rparr>,
        \<lparr>headers = [(''7'', ''x''), (''Accept'', ''b'')], body = ''GET Other HTTP/1.1''\<rparr>]"
proof -
  have a: "LF \<notin> set ''batch_id-123-456''" by simp
  have b: "\<forall>p \<in> set example_parts.
             part_ok p \<and> \<not> includes_str (render_part p) (boundaryDelimiter ''batch_id-123-456'')"
    by code_simp
  have c: "map (\<lambda>p. normal_body (body p)) example_parts
             = [''GET Sales_Demo/Items HTTP/1.1'' @ [LF] @ ''  second line '' @ [LF] @ ''third'',
                ''GET Other HTTP/1.1'']"
    by code_simp
  have d: "map (\<lambda>p. tl (headers p)) example_parts
             = [[(''Host'', '' example.com:8080 ''), (''Content-ID '', ''1'')],
                [(''Accept'', ''a''), (''7'', ''x''), (''Accept'', ''b'')]]"
    by code_simp
  have e: "take (length example_parts) (parseBatchBody (render example_parts ''batch_id-123-456'') ''batch_id-123-456'')
     = [\<lparr>headers = [(''Host'', ''example.com:8080''), (''Content-ID'', ''1'')],
         body = ''GET Sales_Demo/Items HTTP/1.1'' @ [LF] @ ''  second line '' @ [LF] @ ''third''\<rparr>,
        \<lparr>headers = [(''7'', ''x''), (''Accept'', ''b'')], body = ''GET Other HTTP/1.1''\<rparr>]"
    by code_simp
  have f: "map (\<lambda>p. (header_mapping (tl (headers p)), normal_body (body p))) example_parts
             = [(header_mapping [(''Host'', '' example.com:8080 ''), (''Content-ID '', ''1'')],
                 ''GET Sales_Demo/Items HTTP/1.1'' @ [LF] @ ''  second line '' @ [LF] @ ''third''),
                (header_mapping [(''Accept'', ''a''), (''7'', ''x''), (''Accept'', ''b'')], ''GET Other HTTP/1.1'')]"
    using c d by (simp add: example_parts_def)
  from parseBatchBody_render [OF a b] f e show ?thesis by simp
qed

text \<open>
  Claim C3 as stated fails. A part with the two header lines \<open>Content-Type\<close> and
  \<open>Content-Transfer-Encoding\<close> is rendered and parsed: the result has two parts for the
  one that was rendered, and the header mapping of the first has no \<open>Content-Type\<close>. When
  the body of the part has the line \<open>Accept: application/json\<close> behind its request line,
  that line is returned as a header too. When the body has a blank line, as between the
  head and the payload of a POST request, only the text behind the blank line is
  returned as the body.
\<close>

theorem parseBatchBody_render_loses_first_header:
  "parseBatchBody
     (render [\<lparr>headers = [(''Content-Type'', ''application/http''), (''Content-Transfer-Encoding'', ''binary'')],
                body = ''GET Items HTTP/1.1''\<rparr>] ''b'') ''b''
   = [\<lparr>headers = [(''Content-Transfer-Encoding'', ''binary'')], body = ''GET Items HTTP/1.1''\<rparr>,
      \<lparr>headers = [], body = []\<rparr>]
   \<and> parseBatchBody
     (render [\<lparr>headers = [(''Content-Type'', ''application/http''), (''Content-Transfer-Encoding'', ''binary'')],
                body = ''GET Items HTTP/1.1''\<rparr>] ''b'') ''b''
   \<noteq> [\<lparr>headers = [(''Content-Type'', ''application/http''), (''Content-Transfer-Encoding'', ''binary'')],
        body = ''GET Items HTTP/1.1''\<rparr>]
   \<and> parseBatchBody
     (render [\<lparr>headers = [(''Content-Type'', ''application/http''), (''Content-Transfer-Encoding'', ''binary'')],
                body = ''GET Items HTTP/1.1'' @ CRLF @ ''Accept: application/json''\<rparr>] ''b'') ''b''
   = [\<lparr>headers = [(''Content-Transfer-Encoding'', ''binary''), (''Accept'', ''application/json'')],
       body = ''GET Items HTTP/1.1'' @ [LF] @ ''Accept: application/json''\<rparr>,
      \<lparr>headers = [], body = []\<rparr>]
   \<and> parseBatchBody
     (render [\<lparr>headers = [(''Content-Type'', ''application/http''), (''Content-Transfer-Encoding'', ''binary'')],
                body = ''POST Items HTTP/1.1'' @ CRLF @ ''Content-Length: 2'' @ CRLF @ CRLF @ ''{}''\<rparr>] ''b'') ''b''
   = [\<lparr>headers = [(''Content-Transfer-Encoding'', ''binary''), (''Content-Length'', ''2'')], body = ''{}''\<rparr>,
      \<lparr>headers = [], body = []\<rparr>]"
  by code_simp

text \<open>
  The other conditions of \<open>part_ok\<close> and of the theorem are needed as well. A part without
  header lines loses the first line of its body. With an empty body, the header lines
  after the first are returned as the body. A key with a colon is cut at the colon; a
  line with an empty key and a line with the key \<open>__proto__\<close> set no header; a value is cut
  at a CR. A body that contains the separator is cut into two parts.
\<close>

lemma parseBatchBody_render_exclusions:
  "parseBatchBody (render [\<lparr>headers = [], body = ''GET Items HTTP/1.1'' @ CRLF @ ''second line''\<rparr>] ''b'') ''b''
     = [\<lparr>headers = [], body = ''second line''\<rparr>, \<lparr>headers = [], body = []\<rparr>]"
  "parseBatchBody (render [\<lparr>headers = [(''Content-Type'', ''application/http''), (''X'', ''1'')], body = []\<rparr>] ''b'') ''b''
     = [\<lparr>headers = [(''X'', ''1'')], body = ''X: 1''\<rparr>, \<lparr>headers = [], body = []\<rparr>]"
  "parseBatchBody (render [\<lparr>headers = [(''Content-Type'', ''application/http''), (''a:b'', ''v'')],
                            body = ''GET Items HTTP/1.1''\<rparr>] ''b'') ''b''
     = [\<lparr>headers = [(''a'', ''b: v'')], body = ''GET Items HTTP/1.1''\<rparr>, \<lparr>headers = [], body = []\<rparr>]"
  "parseBatchBody (render [\<lparr>headers = [(''Content-Type'', ''application/http''), ([], ''v'')],
                            body = ''GET Items HTTP/1.1''\<rparr>] ''b'') ''b''
     = [\<lparr>headers = [], body = ''GET Items HTTP/1.1''\<rparr>, \<lparr>headers = [], body = []\<rparr>]"
  "parseBatchBody (render [\<lparr>headers = [(''Content-Type'', ''application/http''), (''__proto__'', ''v'')],
                            body = ''GET Items HTTP/1.1''\<rparr>] ''b'') ''b''
     = [\<lparr>headers = [], body = ''GET Items HTTP/1.1''\<rparr>, \<lparr>headers = [], body = []\<rparr>]"
  "parseBatchBody (render [\<lparr>headers = [(''Content-Type'', ''application/http''), (''k'', ''a'' @ [CR] @ ''b'')],
                            body = ''GET Items HTTP/1.1''\<rparr>] ''b'') ''b''
     = [\<lparr>headers = [(''k'', ''a'')], body = ''GET Items HTTP/1.1''\<rparr>, \<lparr>headers = [], body = []\<rparr>]"
  "parseBatchBody (render [\<lparr>headers = [(''Content-Type'', ''application/http'')],
                            body = ''GET Items--b HTTP/1.1''\<rparr>] ''b'') ''b''
     = [\<lparr>headers = [], body = ''GET Items''\<rparr>, \<lparr>headers = [], body = []\<rparr>, \<lparr>headers = [], body = []\<rparr>]"
  by code_simp+

text \<open>
  With a boundary token that is not empty, the whole result is known: the parts above,
  followed by one part without headers and with an empty body, which is what the split
  leaves of the terminal marker.
\<close>

lemma parse_part_terminal_rest: "parse_part ''--'' = \<lparr>headers = [], body = []\<rparr>"
  by (simp add: parse_part_def part_of_lines_def split_lines_def trim_def is_ws_def)

lemma parseBatchBody_render_full:
  assumes lf: "LF \<notin> set b" and ne: "b \<noteq> []"
    and ok: "\<forall>p \<in> set P. part_ok p \<and> \<not> includes_str (render_part p) (boundaryDelimiter b)"
  shows "map (\<lambda>r. (map_of (headers r), body r)) (parseBatchBody (render P b) b)
           = map (\<lambda>p. (header_mapping (tl (headers p)), normal_body (body p))) P @ [(Map.empty, [])]"
proof -
  have free: "\<forall>p \<in> set P. \<not> includes_str (render_part p) (boundaryDelimiter b)" using ok by blast
  have keep: "filter (\<lambda>part. trim part \<noteq> []) (map (\<lambda>p. CRLF @ render_part p) P)
                = map (\<lambda>p. CRLF @ render_part p) P"
    using ok trim_segment_not_Nil by (auto simp: filter_id_conv part_ok_def)
  have "\<not> includes_str ''--'' (boundaryDelimiter b)"
    using includes_str_length [of "''--''" "boundaryDelimiter b"] ne
    by (auto simp: boundaryDelimiter_def)
  then have last_seg: "split_str (boundaryDelimiter b) ''--'' = [''--'']"
    by (rule split_str_no_occurrence)
  have t: "trim ''--'' \<noteq> []" by (simp add: trim_def is_ws_def)
  have "batch_parts (render P b) b = map (\<lambda>p. CRLF @ render_part p) P @ [''--'']"
    unfolding batch_parts_filter split_str_render [OF lf free] last_seg
    using keep t by (simp add: trim_def del: split_str.simps)
  then have "parseBatchBody (render P b) b
               = map parse_part (map (\<lambda>p. CRLF @ render_part p) P) @ [parse_part ''--'']"
    by (simp add: parseBatchBody_def)
  then have "map (\<lambda>r. (map_of (headers r), body r)) (parseBatchBody (render P b) b)
               = map (\<lambda>p. (map_of (headers (parse_part (CRLF @ render_part p))),
                            body (parse_part (CRLF @ render_part p)))) P @ [(Map.empty, [])]"
    by (simp add: comp_def parse_part_terminal_rest)
  also have "map (\<lambda>p. (map_of (headers (parse_part (CRLF @ render_part p))),
                        body (parse_part (CRLF @ render_part p)))) P
               = map (\<lambda>p. (header_mapping (tl (headers p)), normal_body (body p))) P"
    using ok parse_part_rendered by (intro map_cong refl) simp
  finally show ?thesis .
qed

section \<open>Errors (base.error.ts, http.errors.ts)\<close>

datatype ErrorCode =
    INVALID_INPUT | MISSING_REQUIRED_FIELD | INVALID_FORMAT
  | UNAUTHORIZED | INVALID_TOKEN | TOKEN_EXPIRED
  | NETWORK_UNAVAILABLE | TIMEOUT | API_ERROR
  | DB_CONNECTION_ERROR | QUERY_ERROR | RECORD_NOT_FOUND
  | INVALID_OPERATION | RESOURCE_CONFLICT
  | INTERNAL_ERROR | EXTERNAL_SERVICE_ERROR | CONFIGURATION_ERROR
  | DATASPHERE_CONNECTION_ERROR | DATASPHERE_AUTH_ERROR | DATASPHERE_TIMEOUT
  | DATASPHERE_INVALID_MODEL | DATASPHERE_BATCH_ERROR | DATASPHERE_METADATA_ERROR

text \<open>
  \<open>context\<close> holds the entries of the context bag whose values are strings or literals
  (written as strings); the handler below reads \<open>originalError\<close> only. Time stamps and
  echoed request data are left out.
\<close>

record BaseError =
  name :: string
  message :: string
  statusCode :: nat
  errorCode :: ErrorCode
  "context" :: "(string \<times> string) list"

definition ValidationError :: "string \<Rightarrow> ErrorCode \<Rightarrow> (string \<times> string) list \<Rightarrow> BaseError" where
  "ValidationError msg code ctx =
     \<lparr>name = ''ValidationError'', message = msg, statusCode = 400, errorCode = code, context = ctx\<rparr>"

definition BusinessError :: "string \<Rightarrow> ErrorCode \<Rightarrow> (string \<times> string) list \<Rightarrow> BaseError" where
  "BusinessError msg code ctx =
     \<lparr>name = ''BusinessError'', message = msg, statusCode = 422, errorCode = code, context = ctx\<rparr>"

definition DatasphereBatchError :: "string \<Rightarrow> (string \<times> string) list \<Rightarrow> BaseError" where
  "DatasphereBatchError msg ctx =
     (BusinessError msg DATASPHERE_BATCH_ERROR
        ([(''service'', ''Datasphere''), (''retryable'', ''true'')] @ ctx))
     \<lparr>name := ''DatasphereBatchError''\<rparr>"

section \<open>Error handler (error.middleware.ts)\<close>

text \<open>
  The response of \<open>errorHandler\<close>: the status given to \<open>res.status\<close> and the \<open>error\<close> object
  of the JSON body. The handler reads the message of the error, and \<open>originalError\<close> of
  its context when that is not empty; it never reads \<open>statusCode\<close>.
\<close>

record ErrorResponse =
  status :: nat
  error_code :: string
  error_message :: string

definition errorHandler :: "BaseError \<Rightarrow> ErrorResponse" where
  "errorHandler err =
     \<lparr>status = 500, error_code = ''500'',
      error_message = (case map_of (context err) ''originalError'' of
                         Some m \<Rightarrow> if m \<noteq> [] then m else message err
                       | None \<Rightarrow> message err)\<rparr>"

text \<open>\<open>handleRoot\<close> throws this error on every call.\<close>

definition handleRoot :: BaseError where
  "handleRoot = ValidationError ''Please define a path to a Datasphere model'' MISSING_REQUIRED_FIELD []"

text \<open>\<open>validateAndProcessPath\<close>: an empty path is refused, \<open>$metadata\<close> paths are XML.\<close>

definition validateAndProcessPath :: "string \<Rightarrow> BaseError + string option" where
  "validateAndProcessPath path =
     (if path = [] then Inl (ValidationError ''Path to a Datasphere model is required'' MISSING_REQUIRED_FIELD [])
      else Inr (if includes_str path ''$metadata'' then Some ''text/xml'' else None))"

lemma errorHandler_status: "status (errorHandler err) = 500"
  by (simp add: errorHandler_def)

lemma ValidationError_statusCode: "statusCode (ValidationError msg code ctx) = 400"
  by (simp add: ValidationError_def)

text \<open>
  Claim C9 (the code departs from it). Every ValidationError has the HTTP status mapping
  400, and the response that \<open>errorHandler\<close> sends for it carries status 500 and code
  \<open>500\<close>. The error that \<open>handleRoot\<close> throws for a request without a model path is one of
  them.
\<close>

theorem errorHandler_ValidationError_status:
  "statusCode (ValidationError msg code ctx) = 400
   \<and> status (errorHandler (ValidationError msg code ctx)) = 500
   \<and> error_code (errorHandler (ValidationError msg code ctx)) = ''500''
   \<and> handleRoot = ValidationError ''Please define a path to a Datasphere model'' MISSING_REQUIRED_FIELD []"
  by (simp add: handleRoot_def ValidationError_def errorHandler_def)

section \<open>Response envelope (datasphere.service.ts)\<close>

record BatchResponse =
  body_resp :: string
  id_resp :: string

text \<open>
  \<open>Date.now()\<close> is a parameter, the milliseconds since the epoch; the template literal
  renders it as a decimal numeral.
\<close>

definition digit :: "nat \<Rightarrow> char" where
  "digit d = ''0123456789'' ! d"

function decimal :: "nat \<Rightarrow> string" where
  "decimal n = (if n < 10 then [digit n] else decimal (n div 10) @ [digit (n mod 10)])"
  by pat_completeness auto
termination
  by (relation "measure (\<lambda>n. n)") auto

declare decimal.simps [simp del]

definition transformBatchResponse :: "nat \<Rightarrow> string \<Rightarrow> string \<Rightarrow> BatchResponse" where
  "transformBatchResponse now requestBody responseData =
     (let batchId = ''batch_'' @ decimal now;
          responseBody = ''--'' @ batchId @ CRLF @ ''Content-Type: application/http'' @ CRLF @ CRLF
             @ ''HTTP/1.1 200 OK'' @ CRLF @ ''Content-Type: application/json'' @ CRLF @ CRLF
             @ responseData @ CRLF @ ''--'' @ batchId @ ''--''
      in \<lparr>body_resp = responseBody, id_resp = batchId\<rparr>)"

lemma digit_value_digit: "d < 10 \<Longrightarrow> digit_value (digit d) = d"
proof -
  assume "d < 10"
  then have "d \<in> {0,1,2,3,4,5,6,7,8,9}" by auto
  then show ?thesis by (auto simp: digit_value_def digit_def)
qed

lemma decimal_value: "foldl (\<lambda>a c. 10 * a + digit_value c) 0 (decimal n) = n"
proof (induction n rule: decimal.induct)
  case (1 n)
  show ?case
  proof (cases "n < 10")
    case True
    then show ?thesis by (subst decimal.simps) (simp add: digit_value_digit)
  next
    case False
    then show ?thesis using 1 by (subst decimal.simps) (simp add: digit_value_digit)
  qed
qed

lemma decimal_digits: "set (decimal n) \<subseteq> set ''0123456789''"
proof (induction n rule: decimal.induct)
  case (1 n)
  have d: "\<And>d. d < 10 \<Longrightarrow> digit d \<in> set ''0123456789''"
    unfolding digit_def by (rule nth_mem) simp
  show ?case
  proof (cases "n < 10")
    case True
    then show ?thesis using d [of n] by (subst decimal.simps) simp
  next
    case False
    then show ?thesis using 1 d [of "n mod 10"] by (subst decimal.simps) simp
  qed
qed

lemma decimal_example: "decimal 1730538000123 = ''1730538000123''"
  by (simp add: decimal.simps digit_def)

text \<open>
  Claim C2. For every instant \<open>now\<close> of the clock and every forwarded JSON text, the id of
  the envelope is \<open>batch_\<close> followed by the decimal numeral of \<open>now\<close> (the digits after the
  prefix denote \<open>now\<close>), and the body is, byte
  for byte, the eight lines \<open>--id\<close>, \<open>Content-Type: application/http\<close>, an empty line,
  \<open>HTTP/1.1 200 OK\<close>, \<open>Content-Type: application/json\<close>, an empty line, the JSON text and
  \<open>--id--\<close>, joined by CR LF: one inner response, of type \<open>application/json\<close>. The request
  body that is passed in is not read.
\<close>

theorem transformBatchResponse_layout:
  "id_resp (transformBatchResponse now requestBody responseData) = ''batch_'' @ decimal now
   \<and> body_resp (transformBatchResponse now requestBody responseData)
     = join CRLF
         [''--'' @ ''batch_'' @ decimal now,
          ''Content-Type: application/http'',
          [],
          ''HTTP/1.1 200 OK'',
          ''Content-Type: application/json'',
          [],
          responseData,
          ''--'' @ ''batch_'' @ decimal now @ ''--'']
   \<and> body_resp (transformBatchResponse now requestBody responseData)
     = ''--batch_'' @ decimal now @ CRLF @ ''Content-Type: application/http'' @ CRLF @ CRLF
         @ ''HTTP/1.1 200 OK'' @ CRLF @ ''Content-Type: application/json'' @ CRLF @ CRLF
         @ responseData @ CRLF @ ''--batch_'' @ decimal now @ ''--''
   \<and> foldl (\<lambda>a c. 10 * a + digit_value c) 0 (drop 6 (id_resp (transformBatchResponse now requestBody responseData)))
     = now"
  by (simp add: transformBatchResponse_def Let_def decimal_value)

section \<open>URL helpers of the platform\<close>

text \<open>
  \<open>URLSearchParams\<close> and \<open>decodeURIComponent\<close> on ASCII text. Escapes of bytes from 0x80 on
  stand for UTF-8 sequences in JavaScript and are decoded byte by byte here.
\<close>

definition is_hex :: "char \<Rightarrow> bool" where
  "is_hex c = (c \<in> set ''0123456789abcdefABCDEF'')"

definition hex_value :: "char \<Rightarrow> nat" where
  "hex_value c =
     (let n = of_char c in
      if 48 \<le> n \<and> n \<le> 57 then n - 48
      else if 65 \<le> n \<and> n \<le> 70 then n - 55
      else n - 87)"

definition hex_digit :: "nat \<Rightarrow> char" where
  "hex_digit d = ''0123456789ABCDEF'' ! d"

definition is_alnum :: "char \<Rightarrow> bool" where
  "is_alnum c = (let n = (of_char c :: nat) in
     (48 \<le> n \<and> n \<le> 57) \<or> (65 \<le> n \<and> n \<le> 90) \<or> (97 \<le> n \<and> n \<le> 122))"

text \<open>Percent-decoding of the URL standard: a \<open>%\<close> not followed by two hex digits stays.\<close>

fun percent_decode :: "string \<Rightarrow> string" where
  "percent_decode (c # h1 # h2 # cs) =
     (if c = CHR ''%'' \<and> is_hex h1 \<and> is_hex h2
      then char_of (16 * hex_value h1 + hex_value h2) # percent_decode cs
      else c # percent_decode (h1 # h2 # cs))"
| "percent_decode cs = cs"

definition plus_to_space :: "string \<Rightarrow> string" where
  "plus_to_space s = map (\<lambda>c. if c = CHR ''+'' then CHR '' '' else c) s"

text \<open>
  \<open>new URLSearchParams(init)\<close>: a leading \<open>?\<close> is dropped, the text is split at \<open>&\<close>, empty
  pieces are skipped, each piece is split at its first \<open>=\<close> (the value is empty without
  one), \<open>+\<close> becomes a space and both halves are percent-decoded.
\<close>

definition parse_pair :: "string \<Rightarrow> string \<times> string" where
  "parse_pair p =
     (let n = takeWhile (\<lambda>c. c \<noteq> CHR ''='') p;
          v = drop (length n + 1) p
      in (percent_decode (plus_to_space n), percent_decode (plus_to_space v)))"

definition URLSearchParams :: "string \<Rightarrow> (string \<times> string) list" where
  "URLSearchParams init =
     (let s = (if prefix ''?'' init then drop 1 init else init)
      in map parse_pair (filter (\<lambda>p. p \<noteq> []) (split_str ''&'' s)))"

text \<open>
  \<open>params.toString()\<close>: alphanumerics and \<open>* - . _\<close> stay, a space becomes \<open>+\<close>, every other
  byte becomes \<open>%XX\<close> with upper-case hex digits.
\<close>

definition urlencode_char :: "char \<Rightarrow> string" where
  "urlencode_char c =
     (if c = CHR '' '' then ''+''
      else if is_alnum c \<or> c \<in> set ''*-._'' then [c]
      else [CHR ''%'', hex_digit (of_char c div 16), hex_digit (of_char c mod 16)])"

definition urlencode :: "string \<Rightarrow> string" where
  "urlencode s = concat (map urlencode_char s)"

definition toString_params :: "(string \<times> string) list \<Rightarrow> string" where
  "toString_params ps = join ''&'' (map (\<lambda>(n, v). urlencode n @ ''='' @ urlencode v) ps)"

text \<open>
  \<open>decodeURIComponent\<close>: every \<open>%\<close> must start an escape \<open>%XX\<close>, otherwise a URIError is
  thrown (\<open>None\<close>).
\<close>

fun decodeURIComponent :: "string \<Rightarrow> string option" where
  "decodeURIComponent [] = Some []"
| "decodeURIComponent (c # cs) =
     (if c = CHR ''%'' then
        (case cs of
           h1 # h2 # cs' \<Rightarrow>
             if is_hex h1 \<and> is_hex h2
             then map_option ((#) (char_of (16 * hex_value h1 + hex_value h2))) (decodeURIComponent cs')
             else None
         | _ \<Rightarrow> None)
      else map_option ((#) c) (decodeURIComponent cs))"

text \<open>\<open>s.replace(pat, rep)\<close> with a string pattern: the first occurrence only.\<close>

fun replace_first :: "string \<Rightarrow> string \<Rightarrow> string \<Rightarrow> string" where
  "replace_first pat rep [] = (if pat = [] then rep else [])"
| "replace_first pat rep (c # cs) =
     (if prefix pat (c # cs) then rep @ drop (length pat) (c # cs)
      else c # replace_first pat rep cs)"

section \<open>Batch translator (datasphere.service.ts)\<close>

record Request =
  req_path :: string
  req_query :: "(string \<times> string) list"
  req_batch :: "BatchPart list option"
  req_body :: string

text \<open>
  The \<open>try\<close> block of \<open>extractBatchPath\<close>; \<open>None\<close> stands for an exception (no first part, no
  text after a \<open>GET\<close>, a URIError), which the \<open>catch\<close> turns into a ValidationError.
\<close>

definition extract_path_try :: "Request \<Rightarrow> string option" where
  "extract_path_try req =
     (case req_batch req of
        None \<Rightarrow> None
      | Some [] \<Rightarrow> None
      | Some (part # _) \<Rightarrow>
          (let batchBody = body part in
           case split_str ''GET'' batchBody of
             _ # after_get # _ \<Rightarrow>
               (let path = trim (hd (split_str ''HTTP'' after_get));
                    rootPath = replace_first ''$batch'' [] (replace_first ''datasphere/'' [] (req_path req))
                in map_option (drop 1)
                     (decodeURIComponent (toString_params (URLSearchParams (rootPath @ path)))))
           | _ \<Rightarrow> None))"

definition extractBatchPath :: "Request \<Rightarrow> BaseError + string" where
  "extractBatchPath req =
     (case extract_path_try req of
        Some p \<Rightarrow> Inr p
      | None \<Rightarrow> Inl (ValidationError ''Failed to extract batch path from request'' INVALID_FORMAT []))"

definition example_request :: "string \<Rightarrow> Request" where
  "example_request p =
     \<lparr>req_path = p, req_query = [],
      req_batch = Some [\<lparr>headers = [], body = ''GET Consumption/Model?x=1 HTTP/1.1'' @ CRLF @ ''Accept: application/json''\<rparr>],
      req_body = []\<rparr>"

subsection \<open>The extracted path on the example of the specification\<close>

lemma path_between_GET_and_HTTP:
  "(case split_str ''GET'' (''GET Consumption/Model?x=1 HTTP/1.1'' @ rest) of
      _ # after_get # _ \<Rightarrow> Some (trim (hd (split_str ''HTTP'' after_get)))
    | _ \<Rightarrow> None) = Some ''Consumption/Model?x=1''"
proof -
  define r where "r = hd (split_str ''GET'' rest)"
  have a: "\<not> includes_str ('' Consumption/Model?x=1 HTTP/1.1'' @ take (length ''GET'' - 1) rest) ''GET''"
  proof -
    have "\<not> includes_str (take (length ''GET'' - 1) rest) ''GET''"
      using includes_str_length [of "take (length ''GET'' - 1) rest" "''GET''"] by auto
    from includes_str_seam [of "'' Consumption/Model?x=1 HTTP/1.1''" "''GET''", OF _ _ _ this]
    show ?thesis by simp
  qed
  have s1: "split_str ''GET'' ('' Consumption/Model?x=1 HTTP/1.1'' @ rest)
              = ('' Consumption/Model?x=1 HTTP/1.1'' @ r) # tl (split_str ''GET'' rest)"
    using split_str_append_free [of "''GET''" "'' Consumption/Model?x=1 HTTP/1.1''" rest] a
    by (simp add: r_def del: split_str.simps)
  have s0: "split_str ''GET'' (''GET Consumption/Model?x=1 HTTP/1.1'' @ rest)
              = [] # ('' Consumption/Model?x=1 HTTP/1.1'' @ r) # tl (split_str ''GET'' rest)"
    using split_str_sep_first [of "''GET''" "'' Consumption/Model?x=1 HTTP/1.1'' @ rest"] s1
    by (simp del: split_str.simps)
  have s2: "split_str ''HTTP'' ('' Consumption/Model?x=1 HTTP/1.1'' @ r)
              = '' Consumption/Model?x=1 '' # split_str ''HTTP'' (''/1.1'' @ r)"
    using split_str_first_occurrence [of "''HTTP''" "'' Consumption/Model?x=1 ''" "''/1.1'' @ r"]
    by (simp del: split_str.simps)
  have t: "trim '' Consumption/Model?x=1 '' = ''Consumption/Model?x=1''"
    by (simp add: trim_def is_ws_def)
  show ?thesis unfolding s0 list.case s2 list.sel t ..
qed

text \<open>
  Claim C5. The request path that Express hands to the handler starts with a slash: the
  caller's path \<open>datasphere/foo/$batch\<close> arrives as \<open>/datasphere/foo/$batch\<close> or, as the router
  mounted at \<open>/datasphere\<close> sees it, as \<open>/foo/$batch\<close>. For the first part
  \<open>GET Consumption/Model?x=1 HTTP/1.1\<close> followed by any text (CR LF and more lines, or
  nothing) the extracted path is exactly \<open>foo/Consumption/Model?x=1\<close>, whatever the headers
  of the part, the later parts, the query and the raw body are: the text between the
  first \<open>GET\<close> and the next \<open>HTTP\<close> is trimmed and appended to the request path without its
  first \<open>datasphere/\<close> and its first \<open>$batch\<close>, the whole goes through \<open>URLSearchParams\<close> and
  \<open>decodeURIComponent\<close>, and the leading slash is dropped.
\<close>

theorem extractBatchPath_example:
  "extractBatchPath
     \<lparr>req_path = ''/datasphere/foo/$batch'', req_query = q,
      req_batch = Some (\<lparr>headers = hs, body = ''GET Consumption/Model?x=1 HTTP/1.1'' @ rest\<rparr> # others),
      req_body = b\<rparr>
   = Inr ''foo/Consumption/Model?x=1''
   \<and> extractBatchPath
     \<lparr>req_path = ''/foo/$batch'', req_query = q,
      req_batch = Some (\<lparr>headers = hs, body = ''GET Consumption/Model?x=1 HTTP/1.1'' @ rest\<rparr> # others),
      req_body = b\<rparr>
   = Inr ''foo/Consumption/Model?x=1''"
proof -
  have d: "map_option (drop 1)
             (decodeURIComponent (toString_params (URLSearchParams (''/foo/'' @ ''Consumption/Model?x=1''))))
           = Some ''foo/Consumption/Model?x=1''"
    by code_simp
  have r1: "replace_first ''$batch'' [] (replace_first ''datasphere/'' [] ''/datasphere/foo/$batch'') = ''/foo/''"
    by simp
  have r2: "replace_first ''$batch'' [] (replace_first ''datasphere/'' [] ''/foo/$batch'') = ''/foo/''"
    by simp
  have p: "extract_path_try
     \<lparr>req_path = pth, req_query = q,
      req_batch = Some (\<lparr>headers = hs, body = ''GET Consumption/Model?x=1 HTTP/1.1'' @ rest\<rparr> # others),
      req_body = b\<rparr>
    = map_option (drop 1) (decodeURIComponent (toString_params (URLSearchParams
        (replace_first ''$batch'' [] (replace_first ''datasphere/'' [] pth) @ ''Consumption/Model?x=1''))))" for pth
    using path_between_GET_and_HTTP [of rest]
    by (simp add: extract_path_try_def Let_def del: split_str.simps split: list.splits)
  show ?thesis
    unfolding extractBatchPath_def p r1 r2 d by simp
qed

text \<open>
  What \<open>substring(1)\<close> drops is the first character, whatever it is. A path without the
  leading slash, which Express never passes, would lose the \<open>f\<close> of \<open>foo\<close>.
\<close>

lemma extractBatchPath_drops_first_character:
  "extractBatchPath (example_request ''datasphere/foo/$batch'') = Inr ''oo/Consumption/Model?x=1''"
  by code_simp

section \<open>JavaScript numbers and values\<close>

text \<open>
  A number is NaN, an infinity or a finite value, which is kept as an exact rational:
  the rounding of IEEE doubles is not modelled (integers below \<open>2^53\<close> are exact in both).
  \<open>StringToNumber\<close> follows the grammar of numeric string literals: white space around,
  decimal literals with sign, fraction and exponent, \<open>Infinity\<close>, and unsigned
  hexadecimal, octal and binary integers.
\<close>

datatype jsnum = NaN | PosInf | NegInf | Fin rat

definition radix_value :: "nat \<Rightarrow> string \<Rightarrow> nat" where
  "radix_value r s = foldl (\<lambda>a c. r * a + hex_value c) 0 s"

definition pow10 :: "int \<Rightarrow> rat" where
  "pow10 e = (if 0 \<le> e then 10 ^ nat e else 1 / 10 ^ nat (- e))"

fun js_neg :: "jsnum \<Rightarrow> jsnum" where
  "js_neg NaN = NaN"
| "js_neg PosInf = NegInf"
| "js_neg NegInf = PosInf"
| "js_neg (Fin x) = Fin (- x)"

fun js_add :: "jsnum \<Rightarrow> jsnum \<Rightarrow> jsnum" where
  "js_add (Fin x) (Fin y) = Fin (x + y)"
| "js_add NaN _ = NaN"
| "js_add _ NaN = NaN"
| "js_add PosInf NegInf = NaN"
| "js_add NegInf PosInf = NaN"
| "js_add PosInf _ = PosInf"
| "js_add NegInf _ = NegInf"
| "js_add (Fin x) y = y"

fun js_mul :: "jsnum \<Rightarrow> jsnum \<Rightarrow> jsnum" where
  "js_mul (Fin x) (Fin y) = Fin (x * y)"
| "js_mul NaN _ = NaN"
| "js_mul _ NaN = NaN"
| "js_mul (Fin x) y = (if x = 0 then NaN else if 0 < x then y else js_neg y)"
| "js_mul x (Fin y) = (if y = 0 then NaN else if 0 < y then x else js_neg x)"
| "js_mul PosInf y = y"
| "js_mul NegInf y = js_neg y"

definition exponent_part :: "string \<Rightarrow> int option" where
  "exponent_part s =
     (case s of
        [] \<Rightarrow> Some 0
      | c # r \<Rightarrow>
          if c = CHR ''e'' \<or> c = CHR ''E'' then
            (let neg = prefix ''-'' r;
                 d = (if prefix ''-'' r \<or> prefix ''+'' r then tl r else r)
             in if d \<noteq> [] \<and> list_all is_digit d
                then Some (if neg then - int (radix_value 10 d) else int (radix_value 10 d))
                else None)
          else None)"

definition unsigned_decimal :: "string \<Rightarrow> jsnum" where
  "unsigned_decimal s =
     (if s = ''Infinity'' then PosInf
      else
        (let ip = takeWhile is_digit s;
             r1 = dropWhile is_digit s;
             dot = prefix ''.'' r1;
             fp = (if dot then takeWhile is_digit (tl r1) else []);
             r2 = (if dot then dropWhile is_digit (tl r1) else r1)
         in if ip = [] \<and> fp = [] then NaN
            else (case exponent_part r2 of
                    None \<Rightarrow> NaN
                  | Some e \<Rightarrow> Fin (of_nat (radix_value 10 (ip @ fp)) * pow10 (e - int (length fp))))))"

definition radix_literal :: "nat \<Rightarrow> string \<Rightarrow> jsnum" where
  "radix_literal r d =
     (if d \<noteq> [] \<and> list_all (\<lambda>c. is_hex c \<and> hex_value c < r) d then Fin (of_nat (radix_value r d)) else NaN)"

definition StringToNumber :: "string \<Rightarrow> jsnum" where
  "StringToNumber s =
     (let t = trim s in
      if t = [] then Fin 0
      else if prefix ''0x'' t \<or> prefix ''0X'' t then radix_literal 16 (drop 2 t)
      else if prefix ''0o'' t \<or> prefix ''0O'' t then radix_literal 8 (drop 2 t)
      else if prefix ''0b'' t \<or> prefix ''0B'' t then radix_literal 2 (drop 2 t)
      else if prefix ''-'' t then js_neg (unsigned_decimal (tl t))
      else if prefix ''+'' t then unsigned_decimal (tl t)
      else unsigned_decimal t)"

text \<open>\<open>Number(v)\<close> for a query value: a string, or \<open>undefined\<close> when the parameter is absent.\<close>

definition Number' :: "string option \<Rightarrow> jsnum" where
  "Number' v = (case v of None \<Rightarrow> NaN | Some s \<Rightarrow> StringToNumber s)"

text \<open>\<open>n || 0\<close>: NaN and zero are falsy.\<close>

definition or_zero :: "jsnum \<Rightarrow> jsnum" where
  "or_zero n = (if n = NaN \<or> n = Fin 0 then Fin 0 else n)"

datatype jsval =
    JNull
  | JBool bool
  | JNum jsnum
  | JStr string
  | JArr "jsval list"
  | JObj "(string \<times> jsval) list"

fun truthy :: "jsval \<Rightarrow> bool" where
  "truthy JNull = False"
| "truthy (JBool b) = b"
| "truthy (JNum n) = (n \<noteq> NaN \<and> n \<noteq> Fin 0)"
| "truthy (JStr s) = (s \<noteq> [])"
| "truthy (JArr xs) = True"
| "truthy (JObj kvs) = True"

section \<open>Batch request processing (datasphere.service.ts)\<close>

text \<open>
  Lines 137 to 150 of \<open>processBatchRequest\<close>: the count for pagination. \<open>req.query\<close> holds
  strings; a parameter that is absent reads as \<open>undefined\<close>.
\<close>

definition pagination_count :: "(string \<times> string) list \<Rightarrow> BaseError + jsnum" where
  "pagination_count query =
     (let skip = or_zero (Number' (map_of query ''$skip''));
          top = or_zero (Number' (map_of query ''$top''))
      in if skip = NaN \<or> top = NaN
         then Inl (DatasphereBatchError ''Invalid pagination parameters''
                [(''suggestion'', ''Ensure $skip and $top query parameters are valid numbers'')])
         else Inr (js_add skip (js_mul top (Fin 2))))"

text \<open>
  \<open>result.data["@odata.count"] = count\<close>, in strict code. On an object the property is
  set. On an array it is set too, but it is no element, and \<open>JSON.stringify\<close> leaves it
  out. On a primitive value the assignment throws a TypeError (\<open>None\<close>).
\<close>

definition inject_count :: "jsnum \<Rightarrow> jsval \<Rightarrow> jsval option" where
  "inject_count count data =
     (case data of
        JObj kvs \<Rightarrow> Some (JObj (AList.update ''@odata.count'' (JNum count) kvs))
      | JArr xs \<Rightarrow> Some (JArr xs)
      | _ \<Rightarrow> None)"

text \<open>
  \<open>processBatchRequest\<close>. The clock (\<open>Date.now()\<close>), the outbound call \<open>getData\<close> and
  \<open>JSON.stringify\<close> are parameters. \<open>getData\<close> throws a \<open>BaseError\<close> (\<open>Inl (Inl e)\<close>) or
  another error with its message (\<open>Inl (Inr m)\<close>), or returns the \<open>data\<close> of the response
  (\<open>None\<close> when there is no response or it has no \<open>data\<close> property).
\<close>

definition no_data_error :: "string \<Rightarrow> BaseError" where
  "no_data_error path =
     DatasphereBatchError ''Batch processing returned no data''
       [(''path'', path), (''suggestion'', ''Verify that the requested data exists and is accessible'')]"

definition processBatchRequest ::
  "nat \<Rightarrow> (Request \<Rightarrow> string \<Rightarrow> (BaseError + string) + jsval option) \<Rightarrow> (jsval \<Rightarrow> string)
     \<Rightarrow> Request \<Rightarrow> BaseError + BatchResponse" where
  "processBatchRequest now getData stringify req =
     (if (case req_batch req of Some (part # _) \<Rightarrow> False | _ \<Rightarrow> True)
      then Inl (ValidationError ''Invalid batch request format'' INVALID_FORMAT [])
      else
       (case extractBatchPath req of
          Inl e \<Rightarrow> Inl e
        | Inr path \<Rightarrow>
           (case getData req path of
              Inl (Inl e) \<Rightarrow> Inl e
            | Inl (Inr m) \<Rightarrow>
                Inl (DatasphereBatchError ''Failed to process batch request''
                      [(''originalError'', m), (''suggestion'', ''Please check the request format and try again'')])
            | Inr result \<Rightarrow>
               (case result of
                  None \<Rightarrow> Inl (no_data_error path)
                | Some data \<Rightarrow>
                   if \<not> truthy data then Inl (no_data_error path)
                   else
                    (case pagination_count (req_query req) of
                       Inl e \<Rightarrow> Inl e
                     | Inr count \<Rightarrow>
                        (case inject_count count data of
                           None \<Rightarrow>
                             Inl (DatasphereBatchError ''Failed to process batch request''
                                   [(''suggestion'', ''Please check the request format and try again'')])
                         | Some data' \<Rightarrow>
                             Inr (transformBatchResponse now (req_body req) (stringify data'))))))))"

lemma or_zero_not_NaN: "or_zero n \<noteq> NaN"
  by (simp add: or_zero_def)

lemma pagination_count_total:
  "pagination_count query
     = Inr (js_add (or_zero (Number' (map_of query ''$skip'')))
                   (js_mul (or_zero (Number' (map_of query ''$top''))) (Fin 2)))"
  by (simp add: pagination_count_def Let_def or_zero_not_NaN)

lemmas number_eval = Number'_def StringToNumber_def trim_def is_ws_def unsigned_decimal_def is_digit_def
  Let_def exponent_part_def radix_value_def hex_value_def pow10_def or_zero_def

lemma pagination_count_examples:
  "pagination_count [(''$skip'', ''10''), (''$top'', ''5'')] = Inr (Fin 20)"
  "pagination_count [] = Inr (Fin 0)"
  by (simp_all add: pagination_count_def number_eval)

text \<open>
  A request with a first part, an extracted path and a backend answer that is an object
  gets the count injected into the forwarded JSON, whatever its query is.
\<close>

lemma processBatchRequest_injects_count:
  assumes "req_batch req = Some (part # parts)"
    and "extractBatchPath req = Inr path"
    and "getData req path = Inr (Some (JObj kvs))"
  shows "processBatchRequest now getData stringify req
           = Inr (transformBatchResponse now (req_body req)
                    (stringify (JObj (AList.update ''@odata.count''
                       (JNum (js_add (or_zero (Number' (map_of (req_query req) ''$skip'')))
                                     (js_mul (or_zero (Number' (map_of (req_query req) ''$top''))) (Fin 2))))
                       kvs))))"
  using assms by (simp add: processBatchRequest_def pagination_count_total inject_count_def)

text \<open>
  Claim C1 (the code departs from it). With \<open>$skip=abc\<close> the count is computed and
  returned, with 0 for the skip: \<open>Number("abc") || 0\<close> is 0, so the test \<open>isNaN(skip)\<close> that
  follows never holds and no error is raised.
\<close>

theorem pagination_count_non_numeric_skip:
  "pagination_count [(''$skip'', ''abc'')] = Inr (Fin 0)
   \<and> pagination_count [(''$skip'', ''abc''), (''$top'', ''5'')] = Inr (Fin 10)"
  by (simp add: pagination_count_def number_eval)

section \<open>Metadata cleaning (xml-parser.ts)\<close>

text \<open>
  The parsed document is the value that \<open>xml2js\<close> returns: an element is an object whose
  attributes are the string-valued properties of its \<open>$\<close> property and whose child elements
  stand in arrays under their tag names; an element with text only is a string. The
  functions of the source are written for any value, and so is the model. The parser
  \<open>parseStringPromise\<close> and the serializer \<open>Builder.buildObject\<close> belong to the library and
  are parameters.

  Exceptions: a TypeError of the language, a failure of the parser, an \<open>Error\<close> with its
  message, and an error wrapped behind the prefix that a \<open>catch\<close> adds.
\<close>

datatype js_exn = TypeError | ParserFailure | Error' string | Wrapped string js_exn

text \<open>\<open>obj.k\<close> for the property names the source reads; \<open>None\<close> is \<open>undefined\<close>.\<close>

fun get_prop :: "jsval \<Rightarrow> string \<Rightarrow> jsval option" where
  "get_prop (JObj kvs) k = map_of kvs k"
| "get_prop _ k = None"

text \<open>\<open>obj.k1?.k2\<close>.\<close>

definition opt_chain :: "jsval \<Rightarrow> string \<Rightarrow> string \<Rightarrow> jsval option" where
  "opt_chain obj k1 k2 =
     (case get_prop obj k1 of
        None \<Rightarrow> None
      | Some JNull \<Rightarrow> None
      | Some v \<Rightarrow> get_prop v k2)"

definition truthy_opt :: "jsval option \<Rightarrow> bool" where
  "truthy_opt v = (case v of None \<Rightarrow> False | Some x \<Rightarrow> truthy x)"

text \<open>\<open>value && typeof value === "object"\<close>: arrays and objects.\<close>

fun is_object :: "jsval \<Rightarrow> bool" where
  "is_object (JArr xs) = True"
| "is_object (JObj kvs) = True"
| "is_object _ = False"

fun findAllAnnotations :: "jsval \<Rightarrow> jsval list" where
  "findAllAnnotations (JArr xs) = concat (map findAllAnnotations xs)"
| "findAllAnnotations (JObj kvs) =
     (if truthy_opt (opt_chain (JObj kvs) ''$'' ''Target'') \<and> truthy_opt (get_prop (JObj kvs) ''Annotation'')
      then [JObj kvs] else [])
     @ concat (map (\<lambda>(k, v). if is_object v then findAllAnnotations v else []) kvs)"
| "findAllAnnotations v = []"

text \<open>\<open>Promise.all\<close> over results: the first rejection, or all values.\<close>

fun promise_all :: "('e + 'a) list \<Rightarrow> 'e + 'a list" where
  "promise_all [] = Inr []"
| "promise_all (r # rs) =
     (case r of
        Inl e \<Rightarrow> Inl e
      | Inr x \<Rightarrow> (case promise_all rs of Inl e \<Rightarrow> Inl e | Inr xs \<Rightarrow> Inr (x # xs)))"

text \<open>
  \<open>v?.startsWith(pat)\<close>: \<open>undefined\<close> (falsy) on \<open>undefined\<close> and \<open>null\<close>, the test on a string,
  and a TypeError (\<open>None\<close>) on any other value, which has no such method.
\<close>

definition starts_with_opt :: "jsval option \<Rightarrow> string \<Rightarrow> bool option" where
  "starts_with_opt v pat =
     (case v of
        None \<Rightarrow> Some False
      | Some JNull \<Rightarrow> Some False
      | Some (JStr s) \<Rightarrow> Some (prefix pat s)
      | Some _ \<Rightarrow> None)"

definition is_obsolete_label :: "jsval \<Rightarrow> bool option" where
  "is_obsolete_label obj =
     (if opt_chain obj ''$'' ''Term'' = Some (JStr ''Common.Label'')
      then starts_with_opt (opt_chain obj ''$'' ''String'') ''(obsolete)''
      else Some False)"

text \<open>
  \<open>removeObsolete\<close>: an array is mapped and its falsy results are filtered out; an object
  that is an obsolete label becomes \<open>null\<close>; every other object gets each of its
  properties replaced by its result.
\<close>

fun removeObsolete :: "jsval \<Rightarrow> js_exn + jsval" where
  "removeObsolete (JArr xs) =
     (case promise_all (map removeObsolete xs) of
        Inl e \<Rightarrow> Inl e
      | Inr results \<Rightarrow> Inr (JArr (filter truthy results)))"
| "removeObsolete (JObj kvs) =
     (case is_obsolete_label (JObj kvs) of
        None \<Rightarrow> Inl TypeError
      | Some True \<Rightarrow> Inr JNull
      | Some False \<Rightarrow>
          (case promise_all (map (\<lambda>(k, v). map_sum id (Pair k) (removeObsolete v)) kvs) of
             Inl e \<Rightarrow> Inl e
           | Inr entries \<Rightarrow> Inr (JObj entries)))"
| "removeObsolete v = Inr v"

definition is_underscored :: "jsval \<Rightarrow> bool option" where
  "is_underscored obj = starts_with_opt (opt_chain obj ''$'' ''Name'') ''_''"

fun removeUnderscores :: "jsval \<Rightarrow> js_exn + jsval" where
  "removeUnderscores (JArr xs) =
     (case promise_all (map removeUnderscores xs) of
        Inl e \<Rightarrow> Inl e
      | Inr results \<Rightarrow> Inr (JArr (filter truthy results)))"
| "removeUnderscores (JObj kvs) =
     (case is_underscored (JObj kvs) of
        None \<Rightarrow> Inl TypeError
      | Some True \<Rightarrow> Inr JNull
      | Some False \<Rightarrow>
          (case promise_all (map (\<lambda>(k, v). map_sum id (Pair k) (removeUnderscores v)) kvs) of
             Inl e \<Rightarrow> Inl e
           | Inr entries \<Rightarrow> Inr (JObj entries)))"
| "removeUnderscores v = Inr v"

text \<open>
  \<open>xml.replace(/(<Annotation[^>]*Path=")0/g, "$1_0")\<close>. At a position where \<open><Annotation\<close>
  starts, the greedy \<open>[^>]*\<close> may run over the characters up to the next \<open>>\<close>, and the
  match ends at the last \<open>Path="0\<close> among them; the search goes on behind the match.
\<close>

definition last_occurrence :: "string \<Rightarrow> string \<Rightarrow> nat option" where
  "last_occurrence pat s =
     (case filter (\<lambda>j. prefix pat (drop j s)) (rev [0..<Suc (length s)]) of
        [] \<Rightarrow> None
      | j # _ \<Rightarrow> Some j)"

function replaceZeroInPath :: "string \<Rightarrow> string" where
  "replaceZeroInPath [] = []"
| "replaceZeroInPath (c # cs) =
     (if prefix ''<Annotation'' (c # cs) then
        (let r = drop 10 cs;
             m = takeWhile (\<lambda>x. x \<noteq> CHR ''>'') r
         in case last_occurrence (''Path='' @ [DQ] @ ''0'') m of
              Some j \<Rightarrow> ''<Annotation'' @ take j m @ ''Path='' @ [DQ] @ ''_0''
                          @ replaceZeroInPath (drop (j + 7) r)
            | None \<Rightarrow> c # replaceZeroInPath cs)
      else c # replaceZeroInPath cs)"
  by pat_completeness auto
termination
  by (relation "measure length") auto

text \<open>
  \<open>extractLastSegments\<close>. The targets are strings; for an array (which \<open>includes\<close> lets
  through) \<open>lastIndexOf\<close> is the method of arrays and \<open>substring\<close> does not exist.
\<close>

definition last_segment :: "string \<Rightarrow> string" where
  "last_segment path =
     (if CHR ''/'' \<in> set path then rev (takeWhile (\<lambda>c. c \<noteq> CHR ''/'') (rev path)) else path)"

fun extractLastSegment :: "jsval \<Rightarrow> js_exn + jsval" where
  "extractLastSegment (JStr path) = Inr (JStr (last_segment path))"
| "extractLastSegment (JArr xs) = (if JStr ''/'' \<in> set xs then Inl TypeError else Inr (JArr xs))"
| "extractLastSegment v = Inl TypeError"

definition extractLastSegments :: "jsval list \<Rightarrow> js_exn + jsval list" where
  "extractLastSegments paths = promise_all (map extractLastSegment paths)"

text \<open>\<open>target.includes(pat)\<close>: of strings, of arrays, or a TypeError.\<close>

fun js_includes :: "jsval \<Rightarrow> string \<Rightarrow> bool option" where
  "js_includes (JStr s) pat = Some (includes_str s pat)"
| "js_includes (JArr xs) pat = Some (JStr pat \<in> set xs)"
| "js_includes v pat = None"

text \<open>
  \<open>Array.isArray(a) ? a : [a]\<close> for \<open>a = annotationsElement.Annotation\<close>; an \<open>undefined\<close>
  element behaves like \<open>null\<close> under \<open>?.\<close>.
\<close>

definition annotations_of :: "jsval \<Rightarrow> jsval list" where
  "annotations_of annotationsElement =
     (case get_prop annotationsElement ''Annotation'' of
        Some (JArr xs) \<Rightarrow> xs
      | Some v \<Rightarrow> [v]
      | None \<Rightarrow> [JNull])"

definition hasCommonLabel :: "jsval list \<Rightarrow> bool" where
  "hasCommonLabel annotations =
     list_ex (\<lambda>ann. opt_chain ann ''$'' ''Term'' = Some (JStr ''Common.Label'')) annotations"

text \<open>The \<open>forEach\<close> over the annotation groups, with the array \<open>result\<close>.\<close>

fun collect_targets :: "jsval list \<Rightarrow> jsval list \<Rightarrow> js_exn + jsval list" where
  "collect_targets [] result = Inr result"
| "collect_targets (annotationsElement # rest) result =
     (case opt_chain annotationsElement ''$'' ''Target'' of
        None \<Rightarrow> collect_targets rest result
      | Some target \<Rightarrow>
          if \<not> truthy target then collect_targets rest result
          else (case js_includes target ''/_0'' of
                  None \<Rightarrow> Inl TypeError
                | Some False \<Rightarrow> collect_targets rest result
                | Some True \<Rightarrow>
                    if hasCommonLabel (annotations_of annotationsElement)
                    then collect_targets rest result
                    else collect_targets rest (result @ [target])))"

definition targetsMissingLabel :: "jsval \<Rightarrow> js_exn + jsval list" where
  "targetsMissingLabel parsed = collect_targets (findAllAnnotations parsed) []"

definition filterTargetsWithoutLabel :: "(string \<Rightarrow> js_exn + jsval) \<Rightarrow> string \<Rightarrow> js_exn + jsval list" where
  "filterTargetsWithoutLabel parseString xmlContent =
     (case (if xmlContent = [] then Inl (Error' ''Invalid XML content provided'')
            else (case parseString xmlContent of
                    Inl e \<Rightarrow> Inl e
                  | Inr parsed \<Rightarrow>
                      if \<not> is_object parsed then Inl (Error' ''Failed to parse XML content'')
                      else targetsMissingLabel parsed)) of
        Inl e \<Rightarrow> Inl (Wrapped ''Error filtering XML: '' e)
      | Inr result \<Rightarrow> Inr result)"

text \<open>
  \<open>trimmedLine.match(/Name="([^"]+)"/)\<close>: the capture group of the first match, which
  needs at least one character between the quotes.
\<close>

fun name_match :: "string \<Rightarrow> string option" where
  "name_match [] = None"
| "name_match (c # cs) =
     (if prefix (''Name='' @ [DQ]) (c # cs) then
        (let r = drop 5 cs; v = takeWhile (\<lambda>x. x \<noteq> DQ) r
         in if 0 < length v \<and> length v < length r then Some v else name_match cs)
      else name_match cs)"

definition keep_line :: "jsval list \<Rightarrow> nat \<Rightarrow> nat \<Rightarrow> string \<Rightarrow> bool" where
  "keep_line namesToRemove n index line =
     (let trimmedLine = trim line in
      if prefix ''<Property'' trimmedLine
         \<and> (case name_match trimmedLine of Some nm \<Rightarrow> JStr nm \<in> set namesToRemove | None \<Rightarrow> False)
      then False
      else 0 < length trimmedLine \<or> (0 < index \<and> index < n - 1))"

definition removePropertyNodeByName :: "string \<Rightarrow> jsval list \<Rightarrow> string" where
  "removePropertyNodeByName xmlContent namesToRemove =
     (let lines = split_str [LF] xmlContent
      in join [LF] (map snd (filter (\<lambda>(index, line). keep_line namesToRemove (length lines) index line)
                                (enumerate 0 lines))))"

definition removePrimarykeys :: "(string \<Rightarrow> js_exn + jsval) \<Rightarrow> string \<Rightarrow> js_exn + string" where
  "removePrimarykeys parseString xmlContent =
     (case filterTargetsWithoutLabel parseString xmlContent of
        Inl e \<Rightarrow> Inl e
      | Inr targets \<Rightarrow>
          (case extractLastSegments targets of
             Inl e \<Rightarrow> Inl e
           | Inr results \<Rightarrow> Inr (removePropertyNodeByName xmlContent results)))"

text \<open>
  \<open>cleanXML\<close>. The only tree pass that is called is \<open>removeObsolete\<close>.
\<close>

definition cleanXML ::
  "(string \<Rightarrow> js_exn + jsval) \<Rightarrow> (jsval \<Rightarrow> js_exn + string) \<Rightarrow> string \<Rightarrow> js_exn + string" where
  "cleanXML parseString buildObject xmlContent =
     (case (let xmlWithFixedPaths = replaceZeroInPath xmlContent in
            case removePrimarykeys parseString xmlWithFixedPaths of
              Inl e \<Rightarrow> Inl e
            | Inr xmlWithoutPrimarykeys \<Rightarrow>
                (case parseString xmlWithoutPrimarykeys of
                   Inl e \<Rightarrow> Inl e
                 | Inr parsedXml \<Rightarrow>
                     (case removeObsolete parsedXml of
                        Inl e \<Rightarrow> Inl e
                      | Inr cleaned \<Rightarrow> buildObject cleaned))) of
        Inl e \<Rightarrow> Inl (Wrapped ''Error cleaning XML: '' e)
      | Inr s \<Rightarrow> Inr s)"


section \<open>Properties of the metadata cleaning\<close>

text \<open>An attribute as it is written in a tag.\<close>

definition attr :: "string \<Rightarrow> string \<Rightarrow> string" where
  "attr n v = n @ ''='' @ [DQ] @ v @ [DQ]"

subsection \<open>Example documents\<close>

text \<open>
  Three metadata documents, each with the value that the parser of \<open>xml2js\<close> returns for
  it (default options), and for the trees that the cleaning produces the text that
  its \<open>Builder\<close> writes (default options: the XML declaration, two spaces of indentation,
  LF between the lines). \<open>parse_examples\<close> and \<open>build_examples\<close> are the library restricted to
  these documents.
\<close>

definition lines_text :: "string list \<Rightarrow> string" where
  "lines_text ls = join [LF] ls"


definition element :: "(string \<times> string) list \<Rightarrow> (string \<times> jsval) list \<Rightarrow> jsval" where
  "element attrs children = JObj ((''$'', JObj (map (\<lambda>(n, v). (n, JStr v)) attrs)) # children)"











subsection \<open>Targets without a label\<close>

text \<open>What one annotation group adds to the result.\<close>

definition emitted :: "jsval \<Rightarrow> jsval list" where
  "emitted g =
     (case opt_chain g ''$'' ''Target'' of
        None \<Rightarrow> []
      | Some target \<Rightarrow>
          if truthy target \<and> js_includes target ''/_0'' = Some True \<and> \<not> hasCommonLabel (annotations_of g)
          then [target] else [])"

lemma collect_targets_emitted:
  "collect_targets gs acc = Inr out \<Longrightarrow> out = acc @ concat (map emitted gs)"
proof (induction gs arbitrary: acc)
  case Nil
  then show ?case by simp
next
  case (Cons g gs)
  have "emitted g = [] \<and> collect_targets gs acc = Inr out
        \<or> (\<exists>target. emitted g = [target] \<and> collect_targets gs (acc @ [target]) = Inr out)"
    using Cons.prems by (auto simp: emitted_def split: option.splits if_splits bool.splits)
  then show ?case
  proof
    assume "emitted g = [] \<and> collect_targets gs acc = Inr out"
    then show ?thesis using Cons.IH [of acc] by simp
  next
    assume "\<exists>target. emitted g = [target] \<and> collect_targets gs (acc @ [target]) = Inr out"
    then obtain target where "emitted g = [target]" "collect_targets gs (acc @ [target]) = Inr out"
      by blast
    then show ?thesis using Cons.IH [of "acc @ [target]"] by simp
  qed
qed

lemma collect_targets_strings:
  assumes "\<forall>g \<in> set gs. \<forall>v. opt_chain g ''$'' ''Target'' = Some v \<longrightarrow> (\<exists>s. v = JStr s)"
  shows "collect_targets gs acc = Inr (acc @ concat (map emitted gs))"
  using assms
proof (induction gs arbitrary: acc)
  case Nil
  then show ?case by simp
next
  case (Cons g gs)
  show ?case
  proof (cases "opt_chain g ''$'' ''Target''")
    case None
    then show ?thesis using Cons by (simp add: emitted_def)
  next
    case (Some target)
    then obtain s where "target = JStr s" using Cons.prems by auto
    then show ?thesis using Cons Some by (simp add: emitted_def)
  qed
qed

lemma emitted_JStr:
  "JStr t \<in> set (emitted g) \<longleftrightarrow>
     opt_chain g ''$'' ''Target'' = Some (JStr t) \<and> includes_str t ''/_0'' \<and> \<not> hasCommonLabel (annotations_of g)"
proof (cases "opt_chain g ''$'' ''Target''")
  case None
  then show ?thesis by (simp add: emitted_def)
next
  case (Some target)
  have ne: "includes_str t ''/_0'' \<Longrightarrow> t \<noteq> []" by auto
  show ?thesis using Some ne by (cases target) (auto simp: emitted_def)
qed

text \<open>
  The annotation groups are found in document order, a parent before its children:
  they are the object nodes of the tree, in preorder, that have a truthy \<open>$.Target\<close> and
  a truthy \<open>Annotation\<close>.
\<close>

fun nodes :: "jsval \<Rightarrow> jsval list" where
  "nodes (JArr xs) = concat (map nodes xs)"
| "nodes (JObj kvs) = JObj kvs # concat (map (\<lambda>(k, v). nodes v) kvs)"
| "nodes v = []"

definition is_group :: "jsval \<Rightarrow> bool" where
  "is_group g \<longleftrightarrow> truthy_opt (opt_chain g ''$'' ''Target'') \<and> truthy_opt (get_prop g ''Annotation'')"

lemma nodes_not_object: "\<not> is_object v \<Longrightarrow> nodes v = []"
  by (cases v) auto

lemma findAllAnnotations_nodes: "findAllAnnotations v = filter is_group (nodes v)"
proof (induction v)
  case (JArr xs)
  then show ?case by (simp add: filter_concat cong: map_cong)
next
  case (JObj kvs)
  have eq: "map (\<lambda>(k, v). if is_object v then findAllAnnotations v else []) kvs
          = map (\<lambda>(k, v). filter is_group (nodes v)) kvs"
  proof (rule map_cong [OF refl])
    fix kv assume mem: "kv \<in> set kvs"
    obtain k v where kv: "kv = (k, v)" by (cases kv)
    have "findAllAnnotations v = filter is_group (nodes v)"
      using JObj.IH [of kv v] mem kv by (simp add: snds.simps)
    then show "(case kv of (k, v) \<Rightarrow> if is_object v then findAllAnnotations v else [])
                 = (case kv of (k, v) \<Rightarrow> filter is_group (nodes v))"
      by (simp add: kv nodes_not_object)
  qed
  have "filter is_group (concat (map (\<lambda>(k, v). nodes v) kvs))
          = concat (map (\<lambda>(k, v). filter is_group (nodes v)) kvs)"
    by (simp add: filter_concat comp_def case_prod_unfold)
  then have r: "filter is_group (nodes (JObj kvs))
          = (if is_group (JObj kvs) then [JObj kvs] else [])
            @ concat (map (\<lambda>(k, v). filter is_group (nodes v)) kvs)"
    by simp
  have l: "findAllAnnotations (JObj kvs)
          = (if is_group (JObj kvs) then [JObj kvs] else [])
            @ concat (map (\<lambda>(k, v). if is_object v then findAllAnnotations v else []) kvs)"
    by (simp add: is_group_def)
  show ?case unfolding l r eq ..
qed simp_all

text \<open>
  In the value that \<open>xml2js\<close> returns, every \<open>$\<close> is an object of strings. On such a document
  the search always returns.
\<close>

fun is_JStr :: "jsval \<Rightarrow> bool" where
  "is_JStr (JStr s) = True"
| "is_JStr v = False"

definition string_attributes :: "jsval \<Rightarrow> bool" where
  "string_attributes parsed =
     list_all (\<lambda>g. case get_prop g ''$'' of
                      None \<Rightarrow> True
                    | Some (JObj attrs) \<Rightarrow> list_all (\<lambda>kv. is_JStr (snd kv)) attrs
                    | Some v \<Rightarrow> False)
              (nodes parsed)"

lemma string_attributes_node:
  assumes "string_attributes parsed" "g \<in> set (nodes parsed)" "get_prop g ''$'' = Some d"
  shows "\<exists>attrs. d = JObj attrs \<and> (\<forall>kv \<in> set attrs. is_JStr (snd kv))"
proof -
  from assms(1,2) have "case get_prop g ''$'' of
                          None \<Rightarrow> True
                        | Some (JObj attrs) \<Rightarrow> list_all (\<lambda>kv. is_JStr (snd kv)) attrs
                        | Some v \<Rightarrow> False"
    by (simp add: string_attributes_def list_all_iff)
  then show ?thesis using assms(3) by (cases d) (simp_all add: list_all_iff)
qed

lemma string_attributes_chain:
  assumes "string_attributes parsed" "g \<in> set (nodes parsed)" "opt_chain g ''$'' k = Some v"
  shows "\<exists>s. v = JStr s"
proof -
  from assms(3) obtain d where d: "get_prop g ''$'' = Some d" "get_prop d k = Some v"
    by (auto simp: opt_chain_def split: option.splits jsval.splits)
  from string_attributes_node [OF assms(1,2) d(1)]
  obtain attrs where a: "d = JObj attrs" "\<forall>kv \<in> set attrs. is_JStr (snd kv)" by blast
  from d(2) a(1) have "(k, v) \<in> set attrs" by (auto dest: map_of_SomeD)
  then have "is_JStr v" using a(2) by fastforce
  then show ?thesis by (cases v) simp_all
qed

lemma targetsMissingLabel_returns:
  assumes "string_attributes parsed"
  shows "targetsMissingLabel parsed = Inr (concat (map emitted (findAllAnnotations parsed)))"
proof -
  have "\<forall>g \<in> set (findAllAnnotations parsed). \<forall>v. opt_chain g ''$'' ''Target'' = Some v \<longrightarrow> (\<exists>s. v = JStr s)"
    using string_attributes_chain [OF assms] by (auto simp: findAllAnnotations_nodes)
  from collect_targets_strings [OF this, of "[]"] show ?thesis
    by (simp add: targetsMissingLabel_def)
qed

subsection \<open>The reading of the specification\<close>

text \<open>
  The next definitions follow the words of the specification, not the source. An
  attribute of an element is a string-valued property of its \<open>$\<close> property. The child
  annotations of a group are what stands under \<open>Annotation\<close>, normalized to a sequence:
  the elements of an array (several children, and what the parser returns by default
  for one child too), or the one value that stands there in place of an array (the
  single-child representation). A group contributes its \<open>Target\<close> when that contains
  \<open>/_0\<close>, something stands under \<open>Annotation\<close>, and no child annotation has the term
  \<open>Common.Label\<close>; the targets without a label are the contributions of the object nodes
  of the document, in document order.
\<close>

fun attribute :: "jsval \<Rightarrow> string \<Rightarrow> string option" where
  "attribute (JObj kvs) n =
     (case map_of kvs ''$'' of
        Some (JObj attrs) \<Rightarrow> (case map_of attrs n of Some (JStr s) \<Rightarrow> Some s | _ \<Rightarrow> None)
      | _ \<Rightarrow> None)"
| "attribute v n = None"

definition child_annotations :: "jsval \<Rightarrow> jsval list" where
  "child_annotations g =
     (case g of
        JObj kvs \<Rightarrow>
          (case map_of kvs ''Annotation'' of
             None \<Rightarrow> []
           | Some (JArr children) \<Rightarrow> children
           | Some child \<Rightarrow> [child])
      | _ \<Rightarrow> [])"

definition has_annotation :: "jsval \<Rightarrow> bool" where
  "has_annotation g =
     (case g of
        JObj kvs \<Rightarrow> (case map_of kvs ''Annotation'' of None \<Rightarrow> False | Some v \<Rightarrow> truthy v)
      | _ \<Rightarrow> False)"

definition has_label_child :: "jsval \<Rightarrow> bool" where
  "has_label_child g = list_ex (\<lambda>a. attribute a ''Term'' = Some ''Common.Label'') (child_annotations g)"

definition group_targets :: "jsval \<Rightarrow> string list" where
  "group_targets g =
     (case attribute g ''Target'' of
        None \<Rightarrow> []
      | Some T \<Rightarrow>
          if includes_str T ''/_0'' \<and> has_annotation g \<and> \<not> has_label_child g then [T] else [])"

definition unlabelled_targets :: "jsval \<Rightarrow> string list" where
  "unlabelled_targets parsed = concat (map group_targets (nodes parsed))"



text \<open>Example documents for the search: two groups for one target, and groups in both representations.\<close>

definition labelled_group :: jsval where
  "labelled_group = element [(''Target'', ''Sales/_0'')]
     [(''Annotation'', JArr [element [(''Term'', ''Common.Label''), (''String'', ''Key'')] []])]"

definition unlabelled_group :: jsval where
  "unlabelled_group = element [(''Target'', ''Sales/_0''), (''Qualifier'', ''Q'')]
     [(''Annotation'', JArr [element [(''Term'', ''UI.Hidden'')] []])]"

definition two_groups_tree :: jsval where
  "two_groups_tree = JObj [(''Schema'', JObj [(''Annotations'', JArr [labelled_group, unlabelled_group])])]"

definition single_child_tree :: jsval where
  "single_child_tree = JObj [(''Schema'', JObj [(''Annotations'', JArr
     [element [(''Target'', ''Sales/_0'')]
        [(''Annotation'', element [(''Term'', ''Common.Label''), (''String'', ''Key'')] [])],
      element [(''Target'', ''Costs/_0'')]
        [(''Annotation'', element [(''Term'', ''UI.Hidden'')] [])],
      element [(''Target'', ''Sales/Amount'')]
        [(''Annotation'', JArr [element [(''Term'', ''UI.Hidden'')] []])],
      element [(''Target'', ''Items/_0'')]
        [(''Annotation'', JArr [element [(''Term'', ''UI.Hidden'')] [],
                                element [(''Term'', ''Common.Label''), (''String'', ''Item'')] []])],
      element [(''Target'', ''Stock/_0'')]
        [(''Annotation'', JArr [element [(''Term'', ''UI.Hidden'')] [],
                                element [(''Term'', ''Common.Text''), (''Path'', ''Name'')] []])]])])]"

subsection \<open>The search against the reading of the specification\<close>

lemma opt_chain_JStr: "opt_chain g ''$'' n = Some (JStr s) \<longleftrightarrow> attribute g n = Some s"
proof (cases g)
  case (JObj kvs)
  show ?thesis
  proof (cases "map_of kvs ''$''")
    case None
    then show ?thesis using JObj by (simp add: opt_chain_def)
  next
    case (Some d)
    show ?thesis
    proof (cases d)
      case (JObj attrs)
      then show ?thesis using Some \<open>g = JObj kvs\<close>
        by (auto simp: opt_chain_def split: option.splits jsval.splits)
    qed (use Some JObj in \<open>simp_all add: opt_chain_def\<close>)
  qed
qed (simp_all add: opt_chain_def)

lemma hasCommonLabel_children:
  assumes "has_annotation g"
  shows "hasCommonLabel (annotations_of g) = has_label_child g"
proof -
  from assms obtain kvs v where g: "g = JObj kvs" "map_of kvs ''Annotation'' = Some v"
    by (auto simp: has_annotation_def split: jsval.splits option.splits)
  have "annotations_of g = child_annotations g"
    using g by (simp add: annotations_of_def child_annotations_def split: jsval.splits)
  then show ?thesis
    by (simp add: hasCommonLabel_def has_label_child_def opt_chain_JStr)
qed

lemma is_group_string:
  assumes "opt_chain g ''$'' ''Target'' = Some (JStr T)"
  shows "is_group g \<longleftrightarrow> T \<noteq> [] \<and> has_annotation g"
proof -
  from assms obtain kvs where g: "g = JObj kvs"
    by (cases g) (auto simp: opt_chain_def)
  show ?thesis using assms g
    by (auto simp: is_group_def truthy_opt_def has_annotation_def split: option.splits)
qed

lemma includes_str_not_Nil: "includes_str T ''/_0'' \<Longrightarrow> T \<noteq> []"
  by auto

text \<open>What a node adds to the result of the code, in strings.\<close>

lemma emitted_strings:
  "JStr T \<in> set (if is_group g then emitted g else []) \<longleftrightarrow> T \<in> set (group_targets g)"
proof (cases "attribute g ''Target'' = Some T")
  case True
  then have oc: "opt_chain g ''$'' ''Target'' = Some (JStr T)" by (simp add: opt_chain_JStr)
  show ?thesis
    using True is_group_string [OF oc] hasCommonLabel_children [of g] includes_str_not_Nil [of T]
    by (auto simp: emitted_JStr oc group_targets_def)
next
  case False
  then have "opt_chain g ''$'' ''Target'' \<noteq> Some (JStr T)" by (simp add: opt_chain_JStr)
  then show ?thesis using False
    by (auto simp: emitted_JStr group_targets_def split: option.splits if_splits)
qed

lemma emitted_string_node:
  assumes "\<forall>v. opt_chain g ''$'' ''Target'' = Some v \<longrightarrow> (\<exists>s. v = JStr s)"
  shows "(if is_group g then emitted g else []) = map JStr (group_targets g)"
proof (cases "opt_chain g ''$'' ''Target''")
  case None
  then have "attribute g ''Target'' = None"
    using opt_chain_JStr [of g "''Target''"] by (cases "attribute g ''Target''") auto
  then show ?thesis using None by (simp add: emitted_def group_targets_def)
next
  case (Some v)
  then obtain T where v: "v = JStr T" using assms by blast
  then have oc: "opt_chain g ''$'' ''Target'' = Some (JStr T)" using Some by simp
  then have at: "attribute g ''Target'' = Some T" by (simp add: opt_chain_JStr)
  show ?thesis
    using is_group_string [OF oc] hasCommonLabel_children [of g] includes_str_not_Nil [of T]
    by (auto simp: emitted_def oc at group_targets_def)
qed

lemma concat_map_filter:
  "concat (map f (filter P xs)) = concat (map (\<lambda>x. if P x then f x else []) xs)"
  by (induction xs) auto

lemma targetsMissingLabel_strings:
  assumes sa: "string_attributes parsed"
  shows "targetsMissingLabel parsed = Inr (map JStr (unlabelled_targets parsed))"
proof -
  have "map (\<lambda>g. if is_group g then emitted g else []) (nodes parsed)
          = map (\<lambda>g. map JStr (group_targets g)) (nodes parsed)"
  proof (rule map_cong [OF refl])
    fix g assume "g \<in> set (nodes parsed)"
    then have "\<forall>v. opt_chain g ''$'' ''Target'' = Some v \<longrightarrow> (\<exists>s. v = JStr s)"
      using string_attributes_chain [OF sa] by blast
    then show "(if is_group g then emitted g else []) = map JStr (group_targets g)"
      by (rule emitted_string_node)
  qed
  then have "concat (map (\<lambda>g. if is_group g then emitted g else []) (nodes parsed))
               = concat (map (\<lambda>g. map JStr (group_targets g)) (nodes parsed))"
    by (rule arg_cong)
  then have "concat (map emitted (findAllAnnotations parsed)) = map JStr (unlabelled_targets parsed)"
    by (simp add: findAllAnnotations_nodes concat_map_filter unlabelled_targets_def map_concat comp_def)
  then show ?thesis using targetsMissingLabel_returns [OF sa] by simp
qed

text \<open>
  Claim C8 (as amended). The search decides group by group. On a document whose
  attributes are strings (what the parser returns) it returns, and its output is the
  list of the targets without a label of the specification's reading: in document
  order, one entry for every annotation group whose \<open>Target\<close> contains \<open>/_0\<close> and none of whose
  child annotations has the term \<open>Common.Label\<close>, the child annotations being normalized to
  a sequence from the single-child and the multi-child representation. On any document,
  whenever the search returns, a string is in the output exactly if it is one of these
  targets. So a \<open>Target\<close> with \<open>/_0\<close> is in the output exactly if some group that carries it
  has no child with the label: always when its group has none, and never when every
  group that carries it has one.
\<close>

theorem targetsMissingLabel_per_group:
  "(string_attributes parsed \<longrightarrow>
      targetsMissingLabel parsed = Inr (map JStr (unlabelled_targets parsed)))
   \<and> (\<forall>out T. targetsMissingLabel parsed = Inr out \<longrightarrow>
        (JStr T \<in> set out \<longleftrightarrow> T \<in> set (unlabelled_targets parsed)))
   \<and> (\<forall>T. T \<in> set (unlabelled_targets parsed) \<longleftrightarrow>
        includes_str T ''/_0''
        \<and> (\<exists>g \<in> set (nodes parsed).
              attribute g ''Target'' = Some T \<and> has_annotation g \<and> \<not> has_label_child g))"
proof (intro conjI impI allI)
  assume "string_attributes parsed"
  then show "targetsMissingLabel parsed = Inr (map JStr (unlabelled_targets parsed))"
    by (rule targetsMissingLabel_strings)
next
  fix out T
  assume "targetsMissingLabel parsed = Inr out"
  then have "out = concat (map emitted (findAllAnnotations parsed))"
    unfolding targetsMissingLabel_def using collect_targets_emitted [of _ "[]" out] by simp
  then have "out = concat (map (\<lambda>g. if is_group g then emitted g else []) (nodes parsed))"
    by (simp add: findAllAnnotations_nodes concat_map_filter)
  then have "JStr T \<in> set out \<longleftrightarrow> (\<exists>g \<in> set (nodes parsed). JStr T \<in> set (if is_group g then emitted g else []))"
    by (simp only: set_concat set_map UN_iff bex_simps image_iff)
  also have "\<dots> \<longleftrightarrow> (\<exists>g \<in> set (nodes parsed). T \<in> set (group_targets g))"
    by (simp only: emitted_strings)
  finally show "JStr T \<in> set out \<longleftrightarrow> T \<in> set (unlabelled_targets parsed)"
    by (simp add: unlabelled_targets_def)
next
  fix T
  show "T \<in> set (unlabelled_targets parsed) \<longleftrightarrow>
        includes_str T ''/_0''
        \<and> (\<exists>g \<in> set (nodes parsed).
              attribute g ''Target'' = Some T \<and> has_annotation g \<and> \<not> has_label_child g)"
  proof -
    have "T \<in> set (group_targets g) \<longleftrightarrow>
            includes_str T ''/_0'' \<and> attribute g ''Target'' = Some T \<and> has_annotation g \<and> \<not> has_label_child g" for g
      by (cases "attribute g ''Target''") (auto simp: group_targets_def)
    then show ?thesis by (auto simp: unlabelled_targets_def)
  qed
qed

theorem targetsMissingLabel_per_group_witness:
  "string_attributes single_child_tree
   \<and> targetsMissingLabel single_child_tree = Inr [JStr ''Costs/_0'', JStr ''Stock/_0'']
   \<and> unlabelled_targets single_child_tree = [''Costs/_0'', ''Stock/_0'']
   \<and> string_attributes two_groups_tree
   \<and> targetsMissingLabel two_groups_tree = Inr [JStr ''Sales/_0'']
   \<and> unlabelled_targets two_groups_tree = [''Sales/_0'']"
proof -
  have a: "string_attributes single_child_tree" by code_simp
  have b: "unlabelled_targets single_child_tree = [''Costs/_0'', ''Stock/_0'']" by code_simp
  have c: "string_attributes two_groups_tree" by code_simp
  have d: "unlabelled_targets two_groups_tree = [''Sales/_0'']" by code_simp
  from targetsMissingLabel_per_group [of single_child_tree] a b
  have e: "targetsMissingLabel single_child_tree = Inr [JStr ''Costs/_0'', JStr ''Stock/_0'']" by simp
  from targetsMissingLabel_per_group [of two_groups_tree] c d
  have f: "targetsMissingLabel two_groups_tree = Inr [JStr ''Sales/_0'']" by simp
  from a b c d e f show ?thesis by simp
qed


text \<open>
  Claim C8 as stated fails. The document

  \<^verbatim>\<open><Schema>\<close> \<^verbatim>\<open><Annotations Target="Sales/_0">\<close> \<^verbatim>\<open><Annotation Term="Common.Label" String="Key"/>\<close>
  \<^verbatim>\<open></Annotations>\<close> \<^verbatim>\<open><Annotations Target="Sales/_0" Qualifier="Q">\<close> \<^verbatim>\<open><Annotation Term="UI.Hidden"/>\<close>
  \<^verbatim>\<open></Annotations>\<close> \<^verbatim>\<open></Schema>\<close>

  has two annotation groups for the target \<open>Sales/_0\<close>. The first has a child annotation
  with the term \<open>Common.Label\<close>, and the target is in the output all the same, because the
  second group has none.
\<close>

theorem targetsMissingLabel_labelled_target_in_output:
  "targetsMissingLabel two_groups_tree = Inr [JStr ''Sales/_0'']
   \<and> findAllAnnotations two_groups_tree = [labelled_group, unlabelled_group]
   \<and> attribute labelled_group ''Target'' = Some ''Sales/_0''
   \<and> has_label_child labelled_group"
  by code_simp


subsection \<open>The tree pass\<close>







lemma removeObsolete_JNull: "removeObsolete x = Inr JNull \<Longrightarrow> x = JNull \<or> (\<exists>kvs. x = JObj kvs)"
  by (cases x) (auto split: sum.splits option.splits bool.splits)







text \<open>On a document whose attributes are strings the tree pass does not throw.\<close>

lemma promise_all_total:
  assumes "\<forall>x \<in> set xs. \<exists>w. f x = Inr w"
  shows "\<exists>ws. promise_all (map f xs) = Inr ws"
  using assms by (induction xs) (auto split: sum.splits)

lemma string_attributes_JArr:
  "string_attributes (JArr xs) \<Longrightarrow> x \<in> set xs \<Longrightarrow> string_attributes x"
  by (auto simp: string_attributes_def list_all_iff)

lemma nodes_JObj_member:
  "(k, v) \<in> set kvs \<Longrightarrow> set (nodes v) \<subseteq> set (nodes (JObj kvs))"
  by force

lemma string_attributes_JObj:
  "string_attributes (JObj kvs) \<Longrightarrow> (k, v) \<in> set kvs \<Longrightarrow> string_attributes v"
  unfolding string_attributes_def list_all_iff using nodes_JObj_member [of k v kvs] by blast

lemma is_obsolete_label_total:
  assumes "string_attributes (JObj kvs)"
  shows "\<exists>b. is_obsolete_label (JObj kvs) = Some b"
proof (cases "opt_chain (JObj kvs) ''$'' ''String''")
  case None
  then have "starts_with_opt (opt_chain (JObj kvs) ''$'' ''String'') ''(obsolete)'' = Some False"
    by (simp add: starts_with_opt_def)
  then show ?thesis
    by (cases "opt_chain (JObj kvs) ''$'' ''Term'' = Some (JStr ''Common.Label'')")
       (auto simp: is_obsolete_label_def)
next
  case (Some v)
  have "JObj kvs \<in> set (nodes (JObj kvs))" by simp
  from string_attributes_chain [OF assms this Some] obtain s where "v = JStr s" by blast
  then have "starts_with_opt (opt_chain (JObj kvs) ''$'' ''String'') ''(obsolete)'' = Some (prefix ''(obsolete)'' s)"
    using Some by (simp add: starts_with_opt_def)
  then show ?thesis
    by (cases "opt_chain (JObj kvs) ''$'' ''Term'' = Some (JStr ''Common.Label'')")
       (auto simp: is_obsolete_label_def)
qed

lemma removeObsolete_returns:
  "string_attributes v \<Longrightarrow> \<exists>w. removeObsolete v = Inr w"
proof (induction v)
  case (JArr xs)
  have "\<forall>x \<in> set xs. \<exists>w. removeObsolete x = Inr w"
    using JArr.IH string_attributes_JArr [OF JArr.prems] by blast
  from promise_all_total [OF this] show ?case by auto
next
  case (JObj kvs)
  have "\<forall>kv \<in> set kvs. \<exists>w. (case kv of (k, v) \<Rightarrow> map_sum id (Pair k) (removeObsolete v)) = Inr w"
  proof
    fix kv assume mem: "kv \<in> set kvs"
    obtain k v where kv: "kv = (k, v)" by (cases kv)
    have "string_attributes v" using string_attributes_JObj [OF JObj.prems] mem kv by blast
    then obtain w where "removeObsolete v = Inr w" using JObj.IH [of kv v] mem kv by (auto simp: snds.simps)
    then show "\<exists>w. (case kv of (k, v) \<Rightarrow> map_sum id (Pair k) (removeObsolete v)) = Inr w"
      by (simp add: kv)
  qed
  from promise_all_total [OF this] obtain ws where
    "promise_all (map (\<lambda>(k, v). map_sum id (Pair k) (removeObsolete v)) kvs) = Inr ws" by blast
  then show ?case using is_obsolete_label_total [OF JObj.prems]
    by (auto split: option.splits bool.splits)
qed simp_all

subsection \<open>A second run of the cleaning\<close>













subsection \<open>Elements with an underscore name\<close>

definition underscore_text :: string where
  "underscore_text = lines_text
     [''<Schema>'',
      ''  <EntityType '' @ attr ''Name'' ''Sales'' @ ''>'',
      ''    <Property '' @ attr ''Name'' ''_internal'' @ ''/>'',
      ''    <Property '' @ attr ''Name'' ''internal'' @ ''/>'',
      ''  </EntityType>'',
      ''</Schema>'']"

definition underscore_tree :: jsval where
  "underscore_tree = JObj [(''Schema'', JObj
     [(''EntityType'', JArr [element [(''Name'', ''Sales'')]
         [(''Property'', JArr [element [(''Name'', ''_internal'')] [], element [(''Name'', ''internal'')] []])]])])]"

definition parse_underscore :: "string \<Rightarrow> js_exn + jsval" where
  "parse_underscore s = (if s = underscore_text then Inr underscore_tree else Inl ParserFailure)"

text \<open>
  Claim C6 (the code departs from it). On a document with the properties \<open>_internal\<close> and
  \<open>internal\<close>, what \<open>cleanXML\<close> serializes is the parsed tree unchanged, with both
  properties, whatever the serializer is. \<open>removeUnderscores\<close>, which the pipeline does not
  call, would remove \<open>_internal\<close> and keep \<open>internal\<close>.
\<close>

theorem cleanXML_keeps_underscore_property:
  "cleanXML parse_underscore (\<lambda>t. Inr (serialize t)) underscore_text = Inr (serialize underscore_tree)
   \<and> removeUnderscores underscore_tree
     = Inr (JObj [(''Schema'', JObj
         [(''EntityType'', JArr [element [(''Name'', ''Sales'')]
             [(''Property'', JArr [element [(''Name'', ''internal'')] []])]])])])"
proof
  have r: "replaceZeroInPath underscore_text = underscore_text" by code_simp
  have k: "removePrimarykeys parse_underscore underscore_text = Inr underscore_text" by code_simp
  have p: "parse_underscore underscore_text = Inr underscore_tree" by (simp add: parse_underscore_def)
  have o: "removeObsolete underscore_tree = Inr underscore_tree" by code_simp
  show "cleanXML parse_underscore (\<lambda>t. Inr (serialize t)) underscore_text = Inr (serialize underscore_tree)"
    unfolding cleanXML_def Let_def by (simp add: r k p o)
  show "removeUnderscores underscore_tree
     = Inr (JObj [(''Schema'', JObj
         [(''EntityType'', JArr [element [(''Name'', ''Sales'')]
             [(''Property'', JArr [element [(''Name'', ''internal'')] []])]])])])"
    by code_simp
qed

end
